theory Spec2Isabelle
  imports Complex_Main
begin

section \<open>ECMAScript Numbers\<close>

text \<open>
  The calculator computes with ECMAScript Numbers, which are IEEE-754 binary64 values.
  A Number is NaN, one of the two infinities, negative zero, or a finite value;
  \<open>Fin 0\<close> is positive zero. Every arithmetic operation computes the exact real
  result and rounds it to the nearest binary64 value, ties to even.
\<close>

datatype number = NaN | PInf | NInf | NZero | Fin real

text \<open>
  Floor of the logarithm of a positive real to an integer base \<open>b \<ge> 2\<close>, by repeated
  division or multiplication.
\<close>

function logUp :: "nat \<Rightarrow> real \<Rightarrow> int" where
  "logUp b q = (if b < 2 \<or> q < real b then 0 else 1 + logUp b (q / real b))"
  by pat_completeness auto
termination
proof (relation "measure (\<lambda>(b, q). nat \<lfloor>q\<rfloor>)")
  show "wf (measure (\<lambda>(b::nat, q::real). nat \<lfloor>q\<rfloor>))" by simp
next
  fix b :: nat and q :: real
  assume "\<not> (b < 2 \<or> q < real b)"
  then have b: "2 \<le> real b" and q: "real b \<le> q" by simp_all
  have "q / real b \<le> q / 2" using b q by (intro divide_left_mono) auto
  also have "\<dots> \<le> q - 1" using b q by simp
  finally have "\<lfloor>q / real b\<rfloor> \<le> \<lfloor>q - 1\<rfloor>" by (rule floor_mono)
  moreover have "0 < \<lfloor>q\<rfloor>" using b q by simp
  ultimately show "((b, q / real b), (b, q)) \<in> measure (\<lambda>(b, q). nat \<lfloor>q\<rfloor>)" by simp
qed

function logDown :: "nat \<Rightarrow> real \<Rightarrow> int" where
  "logDown b q = (if b < 2 \<or> q \<le> 0 \<or> 1 \<le> q then 0 else logDown b (real b * q) - 1)"
  by pat_completeness auto
termination
proof (relation "measure (\<lambda>(b, q). nat \<lfloor>1 / q\<rfloor>)")
  show "wf (measure (\<lambda>(b::nat, q::real). nat \<lfloor>1 / q\<rfloor>))" by simp
next
  fix b :: nat and q :: real
  assume "\<not> (b < 2 \<or> q \<le> 0 \<or> 1 \<le> q)"
  then have b: "2 \<le> real b" and q: "0 < q" "q < 1" by simp_all
  have "1 < 1 / q" using q by simp
  then have pos: "1 \<le> \<lfloor>1 / q\<rfloor>" by (simp add: le_floor_iff)
  have "2 * q \<le> real b * q" using b q by (intro mult_right_mono) auto
  then have half: "1 / (real b * q) \<le> 1 / (2 * q)"
    using b q by (intro divide_left_mono) auto
  show "((b, real b * q), (b, q)) \<in> measure (\<lambda>(b, q). nat \<lfloor>1 / q\<rfloor>)"
  proof (cases "1 / q < 2")
    case True
    then have "1 / (2 * q) < 1" using q by (simp add: field_simps)
    with half have "1 / (real b * q) < 1" by simp
    then have "\<lfloor>1 / (real b * q)\<rfloor> < 1" by (simp add: floor_less_iff)
    then show ?thesis using pos by simp
  next
    case False
    then have "1 / (2 * q) \<le> 1 / q - 1" using q by (simp add: field_simps)
    with half have "1 / (real b * q) \<le> 1 / q - 1" by simp
    then have "\<lfloor>1 / (real b * q)\<rfloor> \<le> \<lfloor>1 / q - 1\<rfloor>" by (rule floor_mono)
    then show ?thesis using pos by simp
  qed
qed

declare logUp.simps [simp del] logDown.simps [simp del]

definition ilog :: "nat \<Rightarrow> real \<Rightarrow> int" where
  "ilog b q = (if 1 \<le> q then logUp b q else logDown b q)"

definition pow2 :: "int \<Rightarrow> real" where
  "pow2 e = (if 0 \<le> e then 2 ^ nat e else 1 / 2 ^ nat (- e))"

definition roundHalfEven :: "real \<Rightarrow> int" where
  "roundHalfEven x = (let f = \<lfloor>x\<rfloor>; r = x - of_int f
                      in if r < 1 / 2 then f
                         else if 1 / 2 < r then f + 1
                         else if even f then f else f + 1)"

text \<open>
  Rounding of an exact real result to binary64: 53 significant bits, exponents from
  \<open>-1022\<close> (below which the spacing stays \<open>2 ^ -1074\<close>) up to \<open>1023\<close>, overflow to
  an infinity, and a result that rounds to zero keeps the sign of the exact value.
\<close>

definition round64 :: "real \<Rightarrow> number" where
  "round64 q = (if q = 0 then Fin 0
     else let a = \<bar>q\<bar>;
              e = max (ilog 2 a) (- 1022);
              u = pow2 (e - 52);
              m = roundHalfEven (a / u);
              v = of_int m * u
          in if pow2 1024 \<le> v then (if q < 0 then NInf else PInf)
             else if m = 0 then (if q < 0 then NZero else Fin 0)
             else Fin (if q < 0 then - v else v))"

fun isFinite :: "number \<Rightarrow> bool" where
  "isFinite (Fin x) = True"
| "isFinite NZero = True"
| "isFinite _ = False"

fun val :: "number \<Rightarrow> real" where
  "val (Fin x) = x"
| "val _ = 0"

fun isNeg :: "number \<Rightarrow> bool" where
  "isNeg NInf = True"
| "isNeg NZero = True"
| "isNeg (Fin x) = (x < 0)"
| "isNeg _ = False"

fun isInf :: "number \<Rightarrow> bool" where
  "isInf PInf = True"
| "isInf NInf = True"
| "isInf _ = False"

definition isZero :: "number \<Rightarrow> bool" where
  "isZero a = (isFinite a \<and> val a = 0)"

definition signedInf :: "bool \<Rightarrow> number" where
  "signedInf neg = (if neg then NInf else PInf)"

definition signedZero :: "bool \<Rightarrow> number" where
  "signedZero neg = (if neg then NZero else Fin 0)"

text \<open>Unary minus, \<open>-a\<close>.\<close>

fun fneg :: "number \<Rightarrow> number" where
  "fneg NaN = NaN"
| "fneg PInf = NInf"
| "fneg NInf = PInf"
| "fneg NZero = Fin 0"
| "fneg (Fin x) = (if x = 0 then NZero else Fin (- x))"

text \<open>\<open>a + b\<close>, \<open>a - b\<close>, \<open>a * b\<close>, \<open>a / b\<close> of ECMAScript (IEEE-754, round to nearest).\<close>

definition fadd :: "number \<Rightarrow> number \<Rightarrow> number" where
  "fadd a b =
     (if a = NaN \<or> b = NaN then NaN
      else if isInf a then (if isInf b \<and> a \<noteq> b then NaN else a)
      else if isInf b then b
      else if a = NZero \<and> b = NZero then NZero
      else round64 (val a + val b))"

definition fsub :: "number \<Rightarrow> number \<Rightarrow> number" where
  "fsub a b = fadd a (fneg b)"

definition fmul :: "number \<Rightarrow> number \<Rightarrow> number" where
  "fmul a b =
     (if a = NaN \<or> b = NaN then NaN
      else if isInf a \<or> isInf b then
        (if isZero a \<or> isZero b then NaN else signedInf (isNeg a \<noteq> isNeg b))
      else if isZero a \<or> isZero b then signedZero (isNeg a \<noteq> isNeg b)
      else round64 (val a * val b))"

definition fdiv :: "number \<Rightarrow> number \<Rightarrow> number" where
  "fdiv a b =
     (if a = NaN \<or> b = NaN then NaN
      else if isInf a then (if isInf b then NaN else signedInf (isNeg a \<noteq> isNeg b))
      else if isInf b then signedZero (isNeg a \<noteq> isNeg b)
      else if isZero b then (if isZero a then NaN else signedInf (isNeg a \<noteq> isNeg b))
      else if isZero a then signedZero (isNeg a \<noteq> isNeg b)
      else round64 (val a / val b))"

text \<open>The comparisons \<open>a < b\<close> and \<open>a > b\<close>: false whenever an operand is NaN.\<close>

fun flt :: "number \<Rightarrow> number \<Rightarrow> bool" where
  "flt NaN _ = False"
| "flt _ NaN = False"
| "flt PInf _ = False"
| "flt _ NInf = False"
| "flt NInf _ = True"
| "flt _ PInf = True"
| "flt a b = (val a < val b)"

definition fgt :: "number \<Rightarrow> number \<Rightarrow> bool" where
  "fgt a b = flt b a"

subsection \<open>The Math object\<close>

text \<open>
  ECMA-262 fixes the result of each Math function on the special arguments and leaves
  the remaining results "implementation-approximated". The approximated part is a
  parameter of the model: the fields of \<open>mathlib\<close> are the host's functions on finite
  arguments.
\<close>

record mathlib =
  lib_sin :: "real \<Rightarrow> number"
  lib_cos :: "real \<Rightarrow> number"
  lib_tan :: "real \<Rightarrow> number"
  lib_asin :: "real \<Rightarrow> number"
  lib_acos :: "real \<Rightarrow> number"
  lib_atan :: "real \<Rightarrow> number"
  lib_atan_inf :: "bool \<Rightarrow> number"
  lib_log10 :: "real \<Rightarrow> number"
  lib_log :: "real \<Rightarrow> number"
  lib_sqrt :: "real \<Rightarrow> number"
  lib_pow :: "real \<Rightarrow> real \<Rightarrow> number"

definition Math_PI :: number where
  "Math_PI = Fin (884279719003555 / 281474976710656)"

definition Math_E :: number where
  "Math_E = Fin (6121026514868073 / 2251799813685248)"

fun Math_abs :: "number \<Rightarrow> number" where
  "Math_abs NaN = NaN"
| "Math_abs PInf = PInf"
| "Math_abs NInf = PInf"
| "Math_abs NZero = Fin 0"
| "Math_abs (Fin x) = Fin \<bar>x\<bar>"

text \<open>\<open>Math.round\<close>: the nearest integer, ties towards \<open>+\<infinity>\<close>; \<open>-0\<close> for \<open>-0.5 \<le> x < 0\<close>.\<close>

fun Math_round :: "number \<Rightarrow> number" where
  "Math_round (Fin x) =
     (if x = of_int \<lfloor>x\<rfloor> then Fin x
      else if x < 0 \<and> - (1 / 2) \<le> x then NZero
      else Fin (of_int \<lfloor>x + 1 / 2\<rfloor>))"
| "Math_round a = a"

fun Math_sin :: "mathlib \<Rightarrow> number \<Rightarrow> number" where
  "Math_sin M (Fin x) = (if x = 0 then Fin 0 else lib_sin M x)"
| "Math_sin M NZero = NZero"
| "Math_sin M _ = NaN"

fun Math_cos :: "mathlib \<Rightarrow> number \<Rightarrow> number" where
  "Math_cos M (Fin x) = (if x = 0 then Fin 1 else lib_cos M x)"
| "Math_cos M NZero = Fin 1"
| "Math_cos M _ = NaN"

fun Math_tan :: "mathlib \<Rightarrow> number \<Rightarrow> number" where
  "Math_tan M (Fin x) = (if x = 0 then Fin 0 else lib_tan M x)"
| "Math_tan M NZero = NZero"
| "Math_tan M _ = NaN"

fun Math_asin :: "mathlib \<Rightarrow> number \<Rightarrow> number" where
  "Math_asin M (Fin x) =
     (if x = 0 then Fin 0 else if 1 < x \<or> x < - 1 then NaN else lib_asin M x)"
| "Math_asin M NZero = NZero"
| "Math_asin M _ = NaN"

fun Math_acos :: "mathlib \<Rightarrow> number \<Rightarrow> number" where
  "Math_acos M (Fin x) =
     (if 1 < x \<or> x < - 1 then NaN else if x = 1 then Fin 0 else lib_acos M x)"
| "Math_acos M NZero = lib_acos M 0"
| "Math_acos M _ = NaN"

fun Math_atan :: "mathlib \<Rightarrow> number \<Rightarrow> number" where
  "Math_atan M (Fin x) = (if x = 0 then Fin 0 else lib_atan M x)"
| "Math_atan M NZero = NZero"
| "Math_atan M PInf = lib_atan_inf M False"
| "Math_atan M NInf = lib_atan_inf M True"
| "Math_atan M NaN = NaN"

fun Math_log10 :: "mathlib \<Rightarrow> number \<Rightarrow> number" where
  "Math_log10 M (Fin x) =
     (if x = 1 then Fin 0 else if x = 0 then NInf else if x < 0 then NaN
      else lib_log10 M x)"
| "Math_log10 M NZero = NInf"
| "Math_log10 M PInf = PInf"
| "Math_log10 M _ = NaN"

fun Math_log :: "mathlib \<Rightarrow> number \<Rightarrow> number" where
  "Math_log M (Fin x) =
     (if x = 1 then Fin 0 else if x = 0 then NInf else if x < 0 then NaN
      else lib_log M x)"
| "Math_log M NZero = NInf"
| "Math_log M PInf = PInf"
| "Math_log M _ = NaN"

fun Math_sqrt :: "mathlib \<Rightarrow> number \<Rightarrow> number" where
  "Math_sqrt M (Fin x) = (if x = 0 then Fin 0 else if x < 0 then NaN else lib_sqrt M x)"
| "Math_sqrt M NZero = NZero"
| "Math_sqrt M PInf = PInf"
| "Math_sqrt M _ = NaN"

definition isOddInt :: "number \<Rightarrow> bool" where
  "isOddInt a = (isFinite a \<and> val a = of_int \<lfloor>val a\<rfloor> \<and> odd \<lfloor>val a\<rfloor>)"

text \<open>\<open>Math.pow\<close>, following the steps of \<open>Number::exponentiate\<close>.\<close>

definition Math_pow :: "mathlib \<Rightarrow> number \<Rightarrow> number \<Rightarrow> number" where
  "Math_pow M b e =
     (if e = NaN then NaN
      else if isZero e then Fin 1
      else if b = NaN then NaN
      else if b = PInf then (if \<not> isNeg e then PInf else Fin 0)
      else if b = NInf then
        (if \<not> isNeg e then (if isOddInt e then NInf else PInf)
         else (if isOddInt e then NZero else Fin 0))
      else if b = Fin 0 then (if \<not> isNeg e then Fin 0 else PInf)
      else if b = NZero then
        (if \<not> isNeg e then (if isOddInt e then NZero else Fin 0)
         else (if isOddInt e then NInf else PInf))
      else if e = PInf then
        (if 1 < \<bar>val b\<bar> then PInf else if \<bar>val b\<bar> = 1 then NaN else Fin 0)
      else if e = NInf then
        (if 1 < \<bar>val b\<bar> then Fin 0 else if \<bar>val b\<bar> = 1 then NaN else PInf)
      else if val b < 0 \<and> val e \<noteq> of_int \<lfloor>val e\<rfloor> then NaN
      else lib_pow M (val b) (val e))"

section \<open>Utilities\<close>

text \<open>
  A string is the sequence of its UTF-16 code units. \<open>js\<close> reads an ASCII literal.
\<close>

type_synonym jsstring = "nat list"

definition js :: "string \<Rightarrow> jsstring" where
  "js s = map of_char s"

definition isDigit :: "nat \<Rightarrow> bool" where
  "isDigit ch = (48 \<le> ch \<and> ch \<le> 57)"

definition degToRad :: "number \<Rightarrow> number" where
  "degToRad x = fdiv (fmul x Math_PI) (Fin 180)"

definition radToDeg :: "number \<Rightarrow> number" where
  "radToDeg x = fdiv (fmul x (Fin 180)) Math_PI"

text \<open>The loop \<open>for (let i=2;i<=n;i++) r *= i\<close>, for an integral \<open>n\<close>.\<close>

function factorial_loop :: "nat \<Rightarrow> nat \<Rightarrow> number \<Rightarrow> number" where
  "factorial_loop i n r =
     (if i \<le> n then factorial_loop (i + 1) n (fmul r (Fin (real i))) else r)"
  by pat_completeness auto
termination
  by (relation "measure (\<lambda>(i, n, r). n + 1 - i)") auto

declare factorial_loop.simps [simp del]

definition factorial :: "number \<Rightarrow> number" where
  "factorial n =
     (if \<not> isFinite n then NaN
      else if flt n (Fin 0) then NaN
      else if fgt (Math_abs (fsub n (Math_round n))) (round64 (1 / 10 ^ 12)) then NaN
      else let n' = Math_round n in
        if fgt n' (Fin 170) then PInf
        else factorial_loop 2 (nat \<lfloor>val n'\<rfloor>) (Fin 1))"

section \<open>Tokenizer\<close>

datatype opsym = Plus | Minus | Times | Divide | Power | Percent | UMinus

datatype fname = Sin | Cos | Tan | Asin | Acos | Atan | Log | Ln | Sqrt | Inv | Fact

datatype cname = Pi | E | Ans

datatype paren = LParen | RParen

datatype token = Num number | Const cname | Op opsym | Fn fname | Paren paren

datatype error =
    InvalidNumber
  | UnknownIdentifier jsstring
  | UnexpectedChar nat
  | MismatchedParentheses
  | BadExpression
  | BadFunction
  | UnknownTokenType

text \<open>
  \<open>normalizeInput\<close>: five \<open>replaceAll\<close> calls in sequence. The code units are
  \<open>\<times>\<close> = 215, \<open>\<div>\<close> = 247, the minus sign U+2212 = 8722 and the letter pi U+03C0 = 960.
\<close>

fun replaceAll1 :: "nat \<Rightarrow> jsstring \<Rightarrow> jsstring \<Rightarrow> jsstring" where
  "replaceAll1 c r [] = []"
| "replaceAll1 c r (x # xs) = (if x = c then r @ replaceAll1 c r xs else x # replaceAll1 c r xs)"

fun replaceAll_Ans :: "jsstring \<Rightarrow> jsstring" where
  "replaceAll_Ans (a # n # s # xs) =
     (if a = 65 \<and> n = 110 \<and> s = 115 then [97, 110, 115] @ replaceAll_Ans xs
      else a # replaceAll_Ans (n # s # xs))"
| "replaceAll_Ans xs = xs"

definition normalizeInput :: "jsstring \<Rightarrow> jsstring" where
  "normalizeInput raw =
     replaceAll_Ans (replaceAll1 960 [112, 105] (replaceAll1 8722 [45]
       (replaceAll1 247 [47] (replaceAll1 215 [42] raw))))"

text \<open>The code units matched by \<open>\s\<close> in a regular expression.\<close>

definition isSpace :: "nat \<Rightarrow> bool" where
  "isSpace c = (c \<in> {9, 10, 11, 12, 13, 32, 160, 5760, 8232, 8233, 8239, 8287, 12288, 65279}
                \<or> (8192 \<le> c \<and> c \<le> 8202))"

definition isAlpha :: "nat \<Rightarrow> bool" where
  "isAlpha c = ((97 \<le> c \<and> c \<le> 122) \<or> (65 \<le> c \<and> c \<le> 90))"

definition toLowerCase :: "jsstring \<Rightarrow> jsstring" where
  "toLowerCase s = map (\<lambda>c. if 65 \<le> c \<and> c \<le> 90 then c + 32 else c) s"

text \<open>
  The inner loop of the number branch: from position \<open>j\<close> on, with \<open>dot\<close> dots seen
  so far, it returns the characters taken and the rest of the input.
\<close>

fun scanNumber :: "jsstring \<Rightarrow> nat \<Rightarrow> jsstring \<times> jsstring" where
  "scanNumber [] dot = ([], [])"
| "scanNumber (c # cs) dot =
     (if isDigit c \<or> c = 46 then
        (let dot' = (if c = 46 then dot + 1 else dot) in
         if 1 < dot' then ([], c # cs)
         else (let (taken, rest) = scanNumber cs dot' in (c # taken, rest)))
      else ([], c # cs))"

definition digitsVal :: "jsstring \<Rightarrow> nat" where
  "digitsVal ds = foldl (\<lambda>acc c. 10 * acc + (c - 48)) 0 ds"

text \<open>
  \<open>Number(numStr)\<close> on the strings the scanner produces, digits with at most one dot:
  the decimal value, rounded; NaN when there is no digit at all.
\<close>

definition Number :: "jsstring \<Rightarrow> number" where
  "Number s =
     (let ip = takeWhile isDigit s;
          fp = drop 1 (dropWhile isDigit s)
      in if s = [] then Fin 0
         else if (ip = [] \<and> fp = []) \<or> \<not> list_all isDigit fp
                 \<or> (dropWhile isDigit s \<noteq> [] \<and> hd (dropWhile isDigit s) \<noteq> 46)
         then NaN
         else round64 (real (digitsVal (ip @ fp)) / 10 ^ length fp))"

definition identToken :: "jsstring \<Rightarrow> error + token" where
  "identToken ident =
     (if ident = js ''pi'' then Inr (Const Pi)
      else if ident = js ''e'' then Inr (Const E)
      else if ident = js ''ans'' then Inr (Const Ans)
      else if ident = js ''sin'' then Inr (Fn Sin)
      else if ident = js ''cos'' then Inr (Fn Cos)
      else if ident = js ''tan'' then Inr (Fn Tan)
      else if ident = js ''asin'' then Inr (Fn Asin)
      else if ident = js ''acos'' then Inr (Fn Acos)
      else if ident = js ''atan'' then Inr (Fn Atan)
      else if ident = js ''log'' then Inr (Fn Log)
      else if ident = js ''ln'' then Inr (Fn Ln)
      else if ident = js ''sqrt'' then Inr (Fn Sqrt)
      else if ident = js ''inv'' then Inr (Fn Inv)
      else Inl (UnknownIdentifier ident))"

definition opToken :: "nat \<Rightarrow> token option" where
  "opToken c =
     (if c = 43 then Some (Op Plus)
      else if c = 45 then Some (Op Minus)
      else if c = 42 then Some (Op Times)
      else if c = 47 then Some (Op Divide)
      else if c = 94 then Some (Op Power)
      else if c = 37 then Some (Op Percent)
      else None)"

lemma scanNumber_rest_le: "length (snd (scanNumber cs d)) \<le> length cs"
  by (induction cs d rule: scanNumber.induct) (auto simp: Let_def split: prod.splits)

lemma scanNumber_rest_less:
  "isDigit c \<or> c = 46 \<Longrightarrow> length (snd (scanNumber (c # cs) 0)) < Suc (length cs)"
  using scanNumber_rest_le [of cs "if c = 46 then 1 else 0"]
  by (auto simp: Let_def split: prod.splits)

text \<open>The scanning loop of \<open>tokenize\<close>, on the characters from position \<open>i\<close> on.\<close>

function scan :: "jsstring \<Rightarrow> error + token list" where
  "scan [] = Inr []"
| "scan (c # cs) =
     (if isDigit c \<or> c = 46 then
        (let numStr = fst (scanNumber (c # cs) 0);
             num = Number numStr
         in if \<not> isFinite num then Inl InvalidNumber
            else (case scan (snd (scanNumber (c # cs) 0)) of
                    Inl e \<Rightarrow> Inl e
                  | Inr ts \<Rightarrow> Inr (Num num # ts)))
      else if c = 40 \<or> c = 41 then
        (case scan cs of
           Inl e \<Rightarrow> Inl e
         | Inr ts \<Rightarrow> Inr (Paren (if c = 40 then LParen else RParen) # ts))
      else if opToken c \<noteq> None then
        (case scan cs of
           Inl e \<Rightarrow> Inl e
         | Inr ts \<Rightarrow> Inr (the (opToken c) # ts))
      else if isAlpha c then
        (case identToken (toLowerCase (takeWhile isAlpha (c # cs))) of
           Inl e \<Rightarrow> Inl e
         | Inr t \<Rightarrow>
             (case scan (dropWhile isAlpha cs) of
                Inl e \<Rightarrow> Inl e
              | Inr ts \<Rightarrow> Inr (t # ts)))
      else if c = 33 then
        (case scan cs of
           Inl e \<Rightarrow> Inl e
         | Inr ts \<Rightarrow> Inr (Fn Fact # ts))
      else Inl (UnexpectedChar c))"
  by pat_completeness auto
termination
proof (relation "measure length", goal_cases)
  case 1
  show ?case by simp
next
  case (2 c cs)
  then show ?case using scanNumber_rest_less [of c cs] by auto
next
  case (5 c cs)
  then show ?case using length_dropWhile_le [of isAlpha cs] by (simp add: less_Suc_eq_le)
qed auto

text \<open>
  \<open>markUnaryMinus\<close>: a \<open>-\<close> becomes the unary \<open>u-\<close> at the start, after an operator
  or after an opening parenthesis; \<open>prev\<close> is the last token already written.
\<close>

fun isOp :: "token \<Rightarrow> bool" where
  "isOp (Op _) = True"
| "isOp _ = False"

fun markUnaryMinus_loop :: "token list \<Rightarrow> token list \<Rightarrow> token list" where
  "markUnaryMinus_loop [] out = out"
| "markUnaryMinus_loop (t # ts) out =
     (if t = Op Minus then
        (if out = [] \<or> isOp (last out) \<or> last out = Paren LParen
         then markUnaryMinus_loop ts (out @ [Op UMinus])
         else markUnaryMinus_loop ts (out @ [t]))
      else markUnaryMinus_loop ts (out @ [t]))"

definition markUnaryMinus :: "token list \<Rightarrow> token list" where
  "markUnaryMinus tokens = markUnaryMinus_loop tokens []"

text \<open>\<open>insertImplicitMultiplication\<close>; \<open>None\<close> is the \<open>undefined\<close> read from an empty \<open>out\<close>.\<close>

fun canLeft :: "token option \<Rightarrow> bool" where
  "canLeft (Some (Num _)) = True"
| "canLeft (Some (Const _)) = True"
| "canLeft (Some (Paren RParen)) = True"
| "canLeft _ = False"

fun canRight :: "token option \<Rightarrow> bool" where
  "canRight (Some (Num _)) = True"
| "canRight (Some (Const _)) = True"
| "canRight (Some (Fn _)) = True"
| "canRight (Some (Paren LParen)) = True"
| "canRight _ = False"

fun isFn :: "token option \<Rightarrow> bool" where
  "isFn (Some (Fn _)) = True"
| "isFn _ = False"

definition lastOpt :: "'a list \<Rightarrow> 'a option" where
  "lastOpt xs = (if xs = [] then None else Some (last xs))"

fun insertImplicitMultiplication_loop :: "token list \<Rightarrow> token list \<Rightarrow> token list" where
  "insertImplicitMultiplication_loop [] out = out"
| "insertImplicitMultiplication_loop (cur # ts) out =
     (let prev = lastOpt out in
      if canLeft prev \<and> canRight (Some cur) then
        (if \<not> (isFn prev \<and> cur = Paren LParen)
         then insertImplicitMultiplication_loop ts (out @ [Op Times] @ [cur])
         else insertImplicitMultiplication_loop ts (out @ [cur]))
      else insertImplicitMultiplication_loop ts (out @ [cur]))"

definition insertImplicitMultiplication :: "token list \<Rightarrow> token list" where
  "insertImplicitMultiplication tokens = insertImplicitMultiplication_loop tokens []"

definition tokenize :: "jsstring \<Rightarrow> error + token list" where
  "tokenize input =
     (case scan (filter (\<lambda>c. \<not> isSpace c) (normalizeInput input)) of
        Inl e \<Rightarrow> Inl e
      | Inr out \<Rightarrow> Inr (insertImplicitMultiplication (markUnaryMinus out)))"

section \<open>Shunting-yard to RPN\<close>

datatype assoc = L | R

record opinfo =
  prec :: nat
  assoc :: assoc
  arity :: nat

fun OP :: "opsym \<Rightarrow> opinfo" where
  "OP Plus = \<lparr>prec = 1, assoc = L, arity = 2\<rparr>"
| "OP Minus = \<lparr>prec = 1, assoc = L, arity = 2\<rparr>"
| "OP Times = \<lparr>prec = 2, assoc = L, arity = 2\<rparr>"
| "OP Divide = \<lparr>prec = 2, assoc = L, arity = 2\<rparr>"
| "OP Percent = \<lparr>prec = 2, assoc = L, arity = 2\<rparr>"
| "OP Power = \<lparr>prec = 4, assoc = R, arity = 2\<rparr>"
| "OP UMinus = \<lparr>prec = 3, assoc = R, arity = 1\<rparr>"

text \<open>
  Stacks are lists with the top at the head; \<open>output\<close> grows at its end. The three
  inner loops of \<open>toRPN2\<close>: at an operator, at a closing parenthesis, and at the end.
\<close>

fun popOperators :: "opsym \<Rightarrow> token list \<Rightarrow> token list \<Rightarrow> token list \<times> token list" where
  "popOperators t [] output = ([], output)"
| "popOperators t (Op tp # stack) output =
     (let a = OP t; b = OP tp in
      if (assoc a = L \<and> prec a \<le> prec b) \<or> (assoc a = R \<and> prec a < prec b)
      then popOperators t stack (output @ [Op tp])
      else (Op tp # stack, output))"
| "popOperators t (Fn f # stack) output = popOperators t stack (output @ [Fn f])"
| "popOperators t stack output = (stack, output)"

fun popToParen :: "token list \<Rightarrow> token list \<Rightarrow> token list \<times> token list" where
  "popToParen [] output = ([], output)"
| "popToParen (Paren LParen # stack) output = (Paren LParen # stack, output)"
| "popToParen (tp # stack) output = popToParen stack (output @ [tp])"

fun isParen :: "token \<Rightarrow> bool" where
  "isParen (Paren _) = True"
| "isParen _ = False"

fun popAll :: "token list \<Rightarrow> token list \<Rightarrow> error + token list" where
  "popAll [] output = Inr output"
| "popAll (t # stack) output =
     (if isParen t then Inl MismatchedParentheses else popAll stack (output @ [t]))"

fun toRPN2_loop :: "token list \<Rightarrow> token list \<Rightarrow> token list \<Rightarrow> error + token list" where
  "toRPN2_loop [] output stack = popAll stack output"
| "toRPN2_loop (Num v # ts) output stack = toRPN2_loop ts (output @ [Num v]) stack"
| "toRPN2_loop (Const c # ts) output stack = toRPN2_loop ts (output @ [Const c]) stack"
| "toRPN2_loop (Fn f # ts) output stack =
     (if f = Fact then toRPN2_loop ts (output @ [Fn Fact]) stack
      else toRPN2_loop ts output (Fn f # stack))"
| "toRPN2_loop (Op t # ts) output stack =
     (let (stack', output') = popOperators t stack output
      in toRPN2_loop ts output' (Op t # stack'))"
| "toRPN2_loop (Paren LParen # ts) output stack = toRPN2_loop ts output (Paren LParen # stack)"
| "toRPN2_loop (Paren RParen # ts) output stack =
     (case popToParen stack output of
        ([], output') \<Rightarrow> Inl MismatchedParentheses
      | (lp # stack', output') \<Rightarrow>
          (case stack' of
             Fn f # stack'' \<Rightarrow> toRPN2_loop ts (output' @ [Fn f]) stack''
           | _ \<Rightarrow> toRPN2_loop ts output' stack'))"

definition toRPN2 :: "token list \<Rightarrow> error + token list" where
  "toRPN2 tokens = toRPN2_loop tokens [] []"

section \<open>RPN evaluation\<close>

datatype angleMode = DEG | RAD

text \<open>The two fields of the global \<open>state\<close> that \<open>evalRPN\<close> reads.\<close>

record state =
  ans :: number
  mode :: angleMode

fun constValue :: "state \<Rightarrow> cname \<Rightarrow> number" where
  "constValue s Pi = Math_PI"
| "constValue s E = Math_E"
| "constValue s Ans = ans s"

fun applyBinary :: "mathlib \<Rightarrow> opsym \<Rightarrow> number \<Rightarrow> number \<Rightarrow> number" where
  "applyBinary M Plus a b = fadd a b"
| "applyBinary M Minus a b = fsub a b"
| "applyBinary M Times a b = fmul a b"
| "applyBinary M Divide a b = fdiv a b"
| "applyBinary M Power a b = Math_pow M a b"
| "applyBinary M Percent a b = fmul a (fdiv b (Fin 100))"
| "applyBinary M UMinus a b = fneg a"

definition trigIn :: "angleMode \<Rightarrow> number \<Rightarrow> number" where
  "trigIn m x = (if m = DEG then degToRad x else x)"

definition trigOut :: "angleMode \<Rightarrow> number \<Rightarrow> number" where
  "trigOut m x = (if m = DEG then radToDeg x else x)"

fun applyFunction :: "mathlib \<Rightarrow> angleMode \<Rightarrow> fname \<Rightarrow> number \<Rightarrow> number" where
  "applyFunction M m Sin a = Math_sin M (trigIn m a)"
| "applyFunction M m Cos a = Math_cos M (trigIn m a)"
| "applyFunction M m Tan a = Math_tan M (trigIn m a)"
| "applyFunction M m Asin a = trigOut m (Math_asin M a)"
| "applyFunction M m Acos a = trigOut m (Math_acos M a)"
| "applyFunction M m Atan a = trigOut m (Math_atan M a)"
| "applyFunction M m Log a = Math_log10 M a"
| "applyFunction M m Ln a = Math_log M a"
| "applyFunction M m Sqrt a = Math_sqrt M a"
| "applyFunction M m Inv a = fdiv (Fin 1) a"
| "applyFunction M m Fact a = factorial a"

fun evalRPN_loop :: "mathlib \<Rightarrow> state \<Rightarrow> token list \<Rightarrow> number list \<Rightarrow> error + number" where
  "evalRPN_loop M s [] st = (case st of [v] \<Rightarrow> Inr v | _ \<Rightarrow> Inl BadExpression)"
| "evalRPN_loop M s (Num v # ts) st = evalRPN_loop M s ts (v # st)"
| "evalRPN_loop M s (Const c # ts) st = evalRPN_loop M s ts (constValue s c # st)"
| "evalRPN_loop M s (Op t # ts) st =
     (if length st < arity (OP t) then Inl BadExpression
      else if t = UMinus then
        (case st of
           a # st' \<Rightarrow> evalRPN_loop M s ts (fneg a # st')
         | _ \<Rightarrow> Inl BadExpression)
      else
        (case st of
           b # a # st' \<Rightarrow> evalRPN_loop M s ts (applyBinary M t a b # st')
         | _ \<Rightarrow> Inl BadExpression))"
| "evalRPN_loop M s (Fn f # ts) st =
     (if length st < 1 then Inl BadFunction
      else (case st of
              a # st' \<Rightarrow> evalRPN_loop M s ts (applyFunction M (mode s) f a # st')
            | _ \<Rightarrow> Inl BadFunction))"
| "evalRPN_loop M s (Paren p # ts) st = Inl UnknownTokenType"

definition evalRPN :: "mathlib \<Rightarrow> state \<Rightarrow> token list \<Rightarrow> error + number" where
  "evalRPN M s rpn = evalRPN_loop M s rpn []"

definition evaluateExpression :: "mathlib \<Rightarrow> state \<Rightarrow> jsstring \<Rightarrow> error + number" where
  "evaluateExpression M s raw =
     (case tokenize raw of
        Inl e \<Rightarrow> Inl e
      | Inr tokens \<Rightarrow>
          (case toRPN2 tokens of
             Inl e \<Rightarrow> Inl e
           | Inr rpn \<Rightarrow> evalRPN M s rpn))"

section \<open>A sample host\<close>

text \<open>
  One possible host: every Math function returns the correctly rounded exact result.
\<close>

definition roundedLib :: mathlib where
  "roundedLib =
     \<lparr>lib_sin = (\<lambda>x. round64 (sin x)),
      lib_cos = (\<lambda>x. round64 (cos x)),
      lib_tan = (\<lambda>x. round64 (tan x)),
      lib_asin = (\<lambda>x. round64 (arcsin x)),
      lib_acos = (\<lambda>x. round64 (arccos x)),
      lib_atan = (\<lambda>x. round64 (arctan x)),
      lib_atan_inf = (\<lambda>neg. round64 (if neg then - (pi / 2) else pi / 2)),
      lib_log10 = (\<lambda>x. round64 (log 10 x)),
      lib_log = (\<lambda>x. round64 (ln x)),
      lib_sqrt = (\<lambda>x. round64 (sqrt x)),
      lib_pow = (\<lambda>x y. round64
        (if y = of_int \<lfloor>y\<rfloor>
         then (if 0 \<le> y then x ^ nat \<lfloor>y\<rfloor> else 1 / x ^ nat (- \<lfloor>y\<rfloor>))
         else x powr y))\<rparr>"

definition state0 :: state where
  "state0 = \<lparr>ans = Fin 0, mode = DEG\<rparr>"

section \<open>Parenthesis nesting\<close>

text \<open>
  The nesting depth after reading the tokens, starting from depth \<open>d\<close>: \<open>None\<close> when a
  closing parenthesis is read at depth 0.
\<close>

fun parenDepth :: "token list \<Rightarrow> nat \<Rightarrow> nat option" where
  "parenDepth [] d = Some d"
| "parenDepth (Paren LParen # ts) d = parenDepth ts (Suc d)"
| "parenDepth (Paren RParen # ts) d = (if d = 0 then None else parenDepth ts (d - 1))"
| "parenDepth (t # ts) d = parenDepth ts d"

text \<open>The number of opening parentheses on the operator stack.\<close>

definition lparens :: "token list \<Rightarrow> nat" where
  "lparens st = length (filter (\<lambda>t. t = Paren LParen) st)"

section \<open>Implicit multiplication, as a rule on adjacent tokens\<close>

text \<open>
  The rule in words: a \<open>*\<close> goes between adjacent tokens \<open>a\<close>, \<open>b\<close> exactly when \<open>a\<close> is
  a number, a constant or a closing parenthesis and \<open>b\<close> is a number, a constant, a
  function or an opening parenthesis.
\<close>

fun leftKind :: "token \<Rightarrow> bool" where
  "leftKind (Num _) = True"
| "leftKind (Const _) = True"
| "leftKind (Paren RParen) = True"
| "leftKind _ = False"

fun rightKind :: "token \<Rightarrow> bool" where
  "rightKind (Num _) = True"
| "rightKind (Const _) = True"
| "rightKind (Fn _) = True"
| "rightKind (Paren LParen) = True"
| "rightKind _ = False"

fun implicitSpec :: "token list \<Rightarrow> token list" where
  "implicitSpec [] = []"
| "implicitSpec [a] = [a]"
| "implicitSpec (a # b # ts) =
     (if leftKind a \<and> rightKind b then a # Op Times # implicitSpec (b # ts)
      else a # implicitSpec (b # ts))"

section \<open>Stack depth of a postfix sequence\<close>

text \<open>
  The depth of the value stack after evaluating a postfix sequence from depth \<open>d\<close>:
  an operand adds one value, an operator of arity \<open>n\<close> needs \<open>n\<close> values and leaves one,
  a function needs one and leaves one. \<open>None\<close> when some step finds too few values
  (the depth would go negative during its pops) or the token is a parenthesis.
\<close>

fun stackDepth :: "token list \<Rightarrow> nat \<Rightarrow> nat option" where
  "stackDepth [] d = Some d"
| "stackDepth (Num v # ts) d = stackDepth ts (Suc d)"
| "stackDepth (Const c # ts) d = stackDepth ts (Suc d)"
| "stackDepth (Op t # ts) d =
     (if d < arity (OP t) then None else stackDepth ts (d - arity (OP t) + 1))"
| "stackDepth (Fn f # ts) d = (if d < 1 then None else stackDepth ts d)"
| "stackDepth (Paren p # ts) d = None"

text \<open>A result of \<open>evalRPN\<close> agrees with a depth: a value with final depth 1, an error otherwise.\<close>

definition depthAgrees :: "error + number \<Rightarrow> nat option \<Rightarrow> bool" where
  "depthAgrees r d =
     (case r of
        Inr v \<Rightarrow> d = Some 1
      | Inl e \<Rightarrow> d \<noteq> Some 1 \<and> (e = BadExpression \<or> e = BadFunction \<or> e = UnknownTokenType))"

fun noParen :: "token list \<Rightarrow> bool" where
  "noParen [] = True"
| "noParen (Paren p # ts) = False"
| "noParen (t # ts) = noParen ts"

section \<open>Formatting a result\<close>

definition pow10 :: "int \<Rightarrow> real" where
  "pow10 e = (if 0 \<le> e then 10 ^ nat e else 1 / 10 ^ nat (- e))"

definition roundHalfUp :: "real \<Rightarrow> int" where
  "roundHalfUp x = \<lfloor>x + 1 / 2\<rfloor>"

text \<open>
  \<open>x.toPrecision(p)\<close> for \<open>x > 0\<close> chooses integers \<open>n\<close> and \<open>e\<close> with
  \<open>10 ^ (p - 1) \<le> n < 10 ^ p\<close> and \<open>n * 10 ^ (e - p + 1)\<close> as close to \<open>x\<close> as possible, the
  larger one on a tie, and writes the decimal with these digits.
\<close>

definition precisionDigits :: "nat \<Rightarrow> real \<Rightarrow> int \<times> int" where
  "precisionDigits p x =
     (let e = ilog 10 x;
          n = roundHalfUp (x / pow10 (e - int p + 1))
      in if n = 10 ^ p then (10 ^ (p - 1), e + 1) else (n, e))"

text \<open>
  \<open>Number(x.toPrecision(p))\<close>: \<open>Number\<close> reads the decimal that \<open>toPrecision\<close> wrote
  and rounds it to binary64. The zeros give \<open>+0\<close>; NaN and the infinities are written
  and read back as themselves.
\<close>

fun roundToPrecision :: "nat \<Rightarrow> number \<Rightarrow> number" where
  "roundToPrecision p (Fin x) =
     (if x = 0 then Fin 0
      else let (n, e) = precisionDigits p \<bar>x\<bar>;
               d = of_int n * pow10 (e - int p + 1)
           in round64 (if x < 0 then - d else d))"
| "roundToPrecision p NZero = Fin 0"
| "roundToPrecision p a = a"

text \<open>The \<open>k\<close> decimal digits of \<open>s\<close>, and the decimal numeral of a natural number.\<close>

fun digitChars :: "nat \<Rightarrow> nat \<Rightarrow> jsstring" where
  "digitChars 0 s = []"
| "digitChars (Suc k) s = digitChars k (s div 10) @ [48 + s mod 10]"

function natString :: "nat \<Rightarrow> jsstring" where
  "natString n = (if n < 10 then [48 + n] else natString (n div 10) @ [48 + n mod 10])"
  by pat_completeness auto
termination
  by (relation "measure (\<lambda>n. n)") auto

declare natString.simps [simp del]

text \<open>
  \<open>Number::toString\<close> writes a positive \<open>x\<close> with the least number \<open>k\<close> of digits \<open>s\<close>
  such that \<open>s * 10 ^ (n - k)\<close> rounds to \<open>x\<close>; of two such \<open>s\<close> the one closer to \<open>x\<close>.
  \<open>candidates\<close> lists the \<open>(s, n)\<close> that qualify for a given \<open>k\<close>; seventeen digits
  identify every binary64 value.
\<close>

definition candidates :: "real \<Rightarrow> nat \<Rightarrow> (nat \<times> int) list" where
  "candidates x k =
     (let n = ilog 10 x + 1;
          lo = nat \<lfloor>x / pow10 (n - int k)\<rfloor>
      in filter (\<lambda>(s, n). 10 ^ (k - 1) \<le> s \<and> s < 10 ^ k
                   \<and> round64 (real s * pow10 (n - int k)) = Fin x)
           (map (\<lambda>s. if s = 10 ^ k then (10 ^ (k - 1), n + 1) else (s, n)) [lo, lo + 1]))"

definition closer :: "real \<Rightarrow> nat \<Rightarrow> nat \<times> int \<Rightarrow> nat \<times> int \<Rightarrow> nat \<times> int" where
  "closer x k c1 c2 =
     (let d1 = \<bar>real (fst c1) * pow10 (snd c1 - int k) - x\<bar>;
          d2 = \<bar>real (fst c2) * pow10 (snd c2 - int k) - x\<bar>
      in if d1 < d2 then c1 else if d2 < d1 then c2
         else if even (fst c1) then c1 else c2)"

fun shortest :: "real \<Rightarrow> nat \<Rightarrow> nat \<Rightarrow> nat \<times> nat \<times> int" where
  "shortest x 0 k = (k, nat \<lfloor>x / pow10 (ilog 10 x + 1 - int k)\<rfloor>, ilog 10 x + 1)"
| "shortest x (Suc fuel) k =
     (case candidates x k of
        [] \<Rightarrow> shortest x fuel (Suc k)
      | [c] \<Rightarrow> (k, c)
      | c1 # c2 # cs \<Rightarrow> (k, closer x k c1 c2))"

definition layout :: "nat \<Rightarrow> nat \<Rightarrow> int \<Rightarrow> jsstring" where
  "layout k s n =
     (let ds = digitChars k s in
      if int k \<le> n \<and> n \<le> 21 then ds @ replicate (nat (n - int k)) 48
      else if 0 < n \<and> n \<le> 21 then take (nat n) ds @ [46] @ drop (nat n) ds
      else if - 6 < n \<and> n \<le> 0 then [48, 46] @ replicate (nat (- n)) 48 @ ds
      else (let e = n - 1;
                sign = (if e < 0 then 45 else 43);
                es = natString (nat \<bar>e\<bar>)
            in if k = 1 then ds @ [101, sign] @ es
               else take 1 ds @ [46] @ drop 1 ds @ [101, sign] @ es))"

definition positiveString :: "real \<Rightarrow> jsstring" where
  "positiveString x = (let (k, s, n) = shortest x 16 1 in layout k s n)"

fun Number_toString :: "number \<Rightarrow> jsstring" where
  "Number_toString NaN = js ''NaN''"
| "Number_toString PInf = js ''Infinity''"
| "Number_toString NInf = js ''-Infinity''"
| "Number_toString NZero = js ''0''"
| "Number_toString (Fin x) =
     (if x = 0 then js ''0''
      else if x < 0 then 45 # positiveString (- x)
      else positiveString x)"

definition formatNumber :: "number \<Rightarrow> jsstring" where
  "formatNumber n =
     (if \<not> isFinite n then js ''Error''
      else let n' = (if n = NZero then Fin 0 else n)
           in Number_toString (roundToPrecision 12 n'))"

section \<open>Well-formed infix expressions\<close>

text \<open>
  A well-formed infix expression, as a condition on the token sequence: operands
  (numbers, constants, parenthesised expressions, a function name followed by its
  operand) separated by binary operators, any number of unary minus signs before an
  operand, parentheses balanced. What may come next depends on the previous token
  \<open>prev\<close> and on the number \<open>p\<close> of open parentheses. Two forms are not part of it:
  the postfix \<open>!\<close>, and a unary minus directly after \<open>^\<close> or after a function name.
\<close>

fun operandMayStart :: "token option \<Rightarrow> bool" where
  "operandMayStart None = True"
| "operandMayStart (Some (Op t)) = True"
| "operandMayStart (Some (Fn f)) = True"
| "operandMayStart (Some (Paren LParen)) = True"
| "operandMayStart (Some t) = False"

fun unaryMinusMayStart :: "token option \<Rightarrow> bool" where
  "unaryMinusMayStart None = True"
| "unaryMinusMayStart (Some (Op t)) = (t \<noteq> Power)"
| "unaryMinusMayStart (Some (Paren LParen)) = True"
| "unaryMinusMayStart (Some t) = False"

fun wellFormedFrom :: "token option \<Rightarrow> nat \<Rightarrow> token list \<Rightarrow> bool" where
  "wellFormedFrom prev p [] = (\<not> operandMayStart prev \<and> p = 0)"
| "wellFormedFrom prev p (Num v # ts) =
     (operandMayStart prev \<and> wellFormedFrom (Some (Num v)) p ts)"
| "wellFormedFrom prev p (Const c # ts) =
     (operandMayStart prev \<and> wellFormedFrom (Some (Const c)) p ts)"
| "wellFormedFrom prev p (Fn f # ts) =
     (f \<noteq> Fact \<and> operandMayStart prev \<and> wellFormedFrom (Some (Fn f)) p ts)"
| "wellFormedFrom prev p (Op t # ts) =
     ((if t = UMinus then unaryMinusMayStart prev else \<not> operandMayStart prev)
      \<and> wellFormedFrom (Some (Op t)) p ts)"
| "wellFormedFrom prev p (Paren LParen # ts) =
     (operandMayStart prev \<and> wellFormedFrom (Some (Paren LParen)) (Suc p) ts)"
| "wellFormedFrom prev p (Paren RParen # ts) =
     (\<not> operandMayStart prev \<and> 0 < p \<and> wellFormedFrom (Some (Paren RParen)) (p - 1) ts)"

definition wellFormed :: "token list \<Rightarrow> bool" where
  "wellFormed ts = wellFormedFrom None 0 ts"

text \<open>
  The state of \<open>toRPN2\<close> between two tokens of a well-formed expression: the output
  holds one value for every binary operator waiting on the stack, and one more when an
  operand has just been completed.
\<close>

fun binaryOps :: "token list \<Rightarrow> nat" where
  "binaryOps [] = 0"
| "binaryOps (Op t # st) = (if t = UMinus then binaryOps st else Suc (binaryOps st))"
| "binaryOps (t # st) = binaryOps st"

fun onStack :: "token list \<Rightarrow> bool" where
  "onStack [] = True"
| "onStack (Op t # st) = onStack st"
| "onStack (Fn f # st) = onStack st"
| "onStack (Paren LParen # st) = onStack st"
| "onStack (t # st) = False"

fun topAgrees :: "token option \<Rightarrow> token list \<Rightarrow> bool" where
  "topAgrees None st = (st = [])"
| "topAgrees (Some (Op t)) st = (\<exists>st'. st = Op t # st')"
| "topAgrees (Some (Paren LParen)) st = (\<exists>st'. st = Paren LParen # st')"
| "topAgrees (Some t) st = True"

definition parserInv :: "token option \<Rightarrow> nat \<Rightarrow> token list \<Rightarrow> token list \<Rightarrow> bool" where
  "parserInv prev p out st =
     (stackDepth out 0 = Some (binaryOps st + (if operandMayStart prev then 0 else 1))
      \<and> lparens st = p \<and> onStack st \<and> topAgrees prev st)"

section \<open>Evaluation rules\<close>

lemma logUp_stop [simp]: "q < real b \<Longrightarrow> logUp b q = 0"
  by (simp add: logUp.simps)

lemma logUp_step [simp]: "2 \<le> b \<Longrightarrow> real b \<le> q \<Longrightarrow> logUp b q = 1 + logUp b (q / real b)"
  by (subst logUp.simps) simp

lemma logDown_stop [simp]: "q \<le> 0 \<or> 1 \<le> q \<Longrightarrow> logDown b q = 0"
  by (subst logDown.simps) simp

lemma logDown_step [simp]:
  "2 \<le> b \<Longrightarrow> 0 < q \<Longrightarrow> q < 1 \<Longrightarrow> logDown b q = logDown b (real b * q) - 1"
  by (subst logDown.simps) simp

lemmas round64_eval = round64_def ilog_def pow2_def roundHalfEven_def Let_def

lemmas arith_eval = fadd_def fsub_def fmul_def fdiv_def isZero_def signedInf_def signedZero_def
  fgt_def

lemmas tokenize_eval = tokenize_def normalizeInput_def js_def isSpace_def isDigit_def
  isAlpha_def opToken_def Number_def digitsVal_def identToken_def toLowerCase_def
  markUnaryMinus_def insertImplicitMultiplication_def lastOpt_def

lemmas evaluate_eval = evaluateExpression_def toRPN2_def evalRPN_def

section \<open>Properties of binary64 rounding\<close>

text \<open>
  The logarithm functions bracket their argument between two consecutive powers of the
  base. \<open>round64\<close> is monotone, symmetric in the sign, and moves its argument by at
  most half a unit in the last place.
\<close>

lemma logUp_bounds:
  "2 \<le> b \<Longrightarrow> 1 \<le> q \<Longrightarrow>
     0 \<le> logUp b q \<and> real b ^ nat (logUp b q) \<le> q \<and> q < real b ^ (nat (logUp b q) + 1)"
proof (induction b q rule: logUp.induct)
  case (1 b q)
  show ?case
  proof (cases "q < real b")
    case True
    with "1.prems" show ?thesis by simp
  next
    case False
    with "1.prems" have step: "logUp b q = 1 + logUp b (q / real b)" by simp
    from False "1.prems" have q1: "1 \<le> q / real b" by simp
    from "1.IH" [OF _ "1.prems"(1) q1] False "1.prems"
    have m: "0 \<le> logUp b (q / real b)"
      and lo: "real b ^ nat (logUp b (q / real b)) \<le> q / real b"
      and hi: "q / real b < real b ^ (nat (logUp b (q / real b)) + 1)" by auto
    have bpos: "0 < real b" using "1.prems" by simp
    from m have n: "nat (1 + logUp b (q / real b)) = Suc (nat (logUp b (q / real b)))" by simp
    from lo bpos have lo': "real b * real b ^ nat (logUp b (q / real b)) \<le> q"
      by (simp add: field_simps)
    from hi bpos have hi': "q < real b * real b ^ (nat (logUp b (q / real b)) + 1)"
      by (simp add: field_simps)
    show ?thesis using m lo' hi' by (simp add: step n)
  qed
qed

lemma logDown_bounds:
  "2 \<le> b \<Longrightarrow> 0 < q \<Longrightarrow> q < 1 \<Longrightarrow>
     logDown b q < 0 \<and> 1 \<le> q * real b ^ nat (- logDown b q)
       \<and> q * real b ^ (nat (- logDown b q) - 1) < 1"
proof (induction b q rule: logDown.induct)
  case (1 b q)
  from "1.prems" have step: "logDown b q = logDown b (real b * q) - 1" by simp
  have bpos: "0 < real b" using "1.prems" by simp
  show ?case
  proof (cases "1 \<le> real b * q")
    case True
    then have "logDown b (real b * q) = 0" by simp
    with step True "1.prems" show ?thesis by (simp add: mult.commute)
  next
    case False
    have bq: "0 < real b * q" using bpos "1.prems" by simp
    from "1.IH" [OF _ "1.prems"(1) bq] False "1.prems"
    have m: "logDown b (real b * q) < 0"
      and lo: "1 \<le> real b * q * real b ^ nat (- logDown b (real b * q))"
      and hi: "real b * q * real b ^ (nat (- logDown b (real b * q)) - 1) < 1" by auto
    define k where "k = nat (- logDown b (real b * q))"
    from m have k: "1 \<le> k" by (simp add: k_def)
    from m have n: "nat (1 - logDown b (real b * q)) = Suc k" by (simp add: k_def)
    from k obtain j where j: "k = Suc j" by (cases k) simp_all
    from lo have lo0: "1 \<le> real b * q * real b ^ k" by (simp only: k_def)
    from hi have hi0: "real b * q * real b ^ (k - 1) < 1" by (simp only: k_def)
    from lo0 have lo': "1 \<le> q * real b ^ Suc k" by (simp add: mult_ac)
    from hi0 j have hi': "q * real b ^ k < 1" by (simp add: mult_ac)
    show ?thesis using m lo' hi' by (simp add: step n)
  qed
qed

lemma pow2_powi: "pow2 e = 2 powi e"
  by (simp add: pow2_def power_int_def power_inverse inverse_eq_divide power_divide)

lemma pow2_pos: "0 < pow2 e"
  by (simp add: pow2_powi)

lemma pow2_add: "pow2 (a + b) = pow2 a * pow2 b"
  by (simp add: pow2_powi power_int_add)

lemma pow2_mono: "a \<le> b \<Longrightarrow> pow2 a \<le> pow2 b"
  by (simp add: pow2_powi power_int_increasing)

lemma pow2_less_cancel: "pow2 a < pow2 b \<Longrightarrow> a < b"
  using pow2_mono [of b a] by (cases "a < b") auto

lemma pow2_nat: "pow2 (int n) = 2 ^ n"
  by (simp add: pow2_def)

lemma ilog2_bounds:
  assumes "0 < x"
  shows "pow2 (ilog 2 x) \<le> x \<and> x < pow2 (ilog 2 x + 1)"
proof (cases "1 \<le> x")
  case True
  from logUp_bounds [of 2 x] True
  have m: "0 \<le> logUp 2 x" and lo: "2 ^ nat (logUp 2 x) \<le> x"
    and hi: "x < 2 ^ (nat (logUp 2 x) + 1)" by simp_all
  from m have "nat (logUp 2 x + 1) = nat (logUp 2 x) + 1" by simp
  with True m lo hi show ?thesis by (simp add: ilog_def pow2_def)
next
  case False
  from logDown_bounds [of 2 x] False assms
  have m: "logDown 2 x < 0" and lo: "1 \<le> x * 2 ^ nat (- logDown 2 x)"
    and hi: "x * 2 ^ (nat (- logDown 2 x) - 1) < 1" by simp_all
  have lo': "1 / 2 ^ nat (- logDown 2 x) \<le> x" using lo by (simp add: field_simps)
  have hi': "x < pow2 (logDown 2 x + 1)"
  proof (cases "logDown 2 x = - 1")
    case True
    with False show ?thesis by (simp add: pow2_def)
  next
    case F: False
    with m have "nat (- (logDown 2 x + 1)) = nat (- logDown 2 x) - 1" by simp
    with F m hi show ?thesis by (simp add: pow2_def field_simps)
  qed
  from m lo' hi' False show ?thesis by (simp add: ilog_def pow2_def)
qed

lemma ilog2_mono:
  assumes "0 < x" "x \<le> y"
  shows "ilog 2 x \<le> ilog 2 y"
proof -
  from assms ilog2_bounds [of x] ilog2_bounds [of y]
  have "pow2 (ilog 2 x) < pow2 (ilog 2 y + 1)" by simp
  from pow2_less_cancel [OF this] show ?thesis by simp
qed

lemma roundHalfEven_bounds:
  "real_of_int (roundHalfEven x) - 1 / 2 \<le> x \<and> x \<le> real_of_int (roundHalfEven x) + 1 / 2"
  unfolding roundHalfEven_def Let_def by (auto; linarith)

lemma roundHalfEven_of_int [simp]: "roundHalfEven (of_int n) = n"
  by (simp add: roundHalfEven_def)

lemma roundHalfEven_mono:
  assumes "x \<le> y"
  shows "roundHalfEven x \<le> roundHalfEven y"
proof (cases "\<lfloor>x\<rfloor> = \<lfloor>y\<rfloor>")
  case True
  with assms show ?thesis unfolding roundHalfEven_def Let_def by auto
next
  case False
  with assms have lt: "\<lfloor>x\<rfloor> + 1 \<le> \<lfloor>y\<rfloor>" using floor_mono [of x y] by simp
  have a: "roundHalfEven x \<le> \<lfloor>x\<rfloor> + 1" unfolding roundHalfEven_def Let_def by auto
  have b: "\<lfloor>y\<rfloor> \<le> roundHalfEven y" unfolding roundHalfEven_def Let_def by auto
  from lt a b show ?thesis by simp
qed

lemma round64_pos_cases:
  assumes "0 < q"
  defines "e \<equiv> max (ilog 2 q) (- 1022)"
  defines "m \<equiv> roundHalfEven (q / pow2 (e - 52))"
  shows "(pow2 1024 \<le> of_int m * pow2 (e - 52) \<and> round64 q = PInf)
       \<or> (of_int m * pow2 (e - 52) < pow2 1024 \<and> round64 q = Fin (of_int m * pow2 (e - 52)))"
  using assms by (auto simp: round64_def Let_def)

lemma round64_minus:
  "round64 (- q) = (case round64 q of PInf \<Rightarrow> NInf | NInf \<Rightarrow> PInf
      | Fin v \<Rightarrow> (if v = 0 then (if q = 0 then Fin 0 else if q < 0 then Fin 0 else NZero) else Fin (- v))
      | NZero \<Rightarrow> Fin 0 | NaN \<Rightarrow> NaN)"
  using pow2_pos [of "max (ilog 2 \<bar>q\<bar>) (- 1022) - 52"]
  by (auto simp: round64_def Let_def)

lemma round64_mag:
  assumes "0 < q"
  defines "e \<equiv> max (ilog 2 q) (- 1022)"
  shows "pow2 e \<le> q \<Longrightarrow> pow2 e \<le> of_int (roundHalfEven (q / pow2 (e - 52))) * pow2 (e - 52)"
    and "of_int (roundHalfEven (q / pow2 (e - 52))) * pow2 (e - 52) \<le> pow2 (e + 1)"
    and "0 \<le> roundHalfEven (q / pow2 (e - 52))"
proof -
  define u where "u = pow2 (e - 52)"
  have upos: "0 < u" by (simp add: u_def pow2_pos)
  have "pow2 (52 + (e - 52)) = pow2 52 * u" unfolding u_def by (rule pow2_add)
  moreover have "52 + (e - 52) = e" by simp
  moreover have "pow2 52 = 2 ^ 52" by (simp add: pow2_def)
  ultimately have e52: "pow2 e = 2 ^ 52 * u" by (simp only:)
  have "pow2 (53 + (e - 52)) = pow2 53 * u" unfolding u_def by (rule pow2_add)
  moreover have "53 + (e - 52) = e + 1" by simp
  moreover have "pow2 53 = 2 ^ 53" by (simp add: pow2_def)
  ultimately have e53: "pow2 (e + 1) = 2 ^ 53 * u" by (simp only:)
  from ilog2_bounds [OF assms(1)] have "q < pow2 (ilog 2 q + 1)" by simp
  also have "\<dots> \<le> pow2 (e + 1)" by (intro pow2_mono) (simp add: e_def)
  finally have "q < 2 ^ 53 * u" by (simp only: e53)
  then have "q / u \<le> 2 ^ 53" using upos by (simp add: field_simps)
  then have "q / u \<le> real_of_int (2 ^ 53)" by simp
  from roundHalfEven_mono [OF this] have "roundHalfEven (q / u) \<le> 2 ^ 53"
    by (simp only: roundHalfEven_of_int)
  then have "real_of_int (roundHalfEven (q / u)) \<le> real_of_int (2 ^ 53)"
    by (simp only: of_int_le_iff)
  then have "real_of_int (roundHalfEven (q / u)) \<le> 2 ^ 53" by simp
  then show "of_int (roundHalfEven (q / pow2 (e - 52))) * pow2 (e - 52) \<le> pow2 (e + 1)"
    using upos by (simp add: e53 u_def [symmetric])
  have "real_of_int 0 \<le> q / u" using assms(1) upos by simp
  from roundHalfEven_mono [OF this] show "0 \<le> roundHalfEven (q / pow2 (e - 52))"
    by (simp only: roundHalfEven_of_int u_def)
  assume "pow2 e \<le> q"
  then have "2 ^ 52 * u \<le> q" by (simp only: e52)
  then have "real_of_int (2 ^ 52) \<le> q / u" using upos by (simp add: field_simps)
  from roundHalfEven_mono [OF this] have "2 ^ 52 \<le> roundHalfEven (q / u)"
    by (simp only: roundHalfEven_of_int)
  then have "real_of_int (2 ^ 52) \<le> real_of_int (roundHalfEven (q / u))"
    by (simp only: of_int_le_iff)
  then have "2 ^ 52 \<le> real_of_int (roundHalfEven (q / u))" by simp
  then show "pow2 e \<le> of_int (roundHalfEven (q / pow2 (e - 52))) * pow2 (e - 52)"
    using upos by (simp add: e52 u_def [symmetric])
qed

lemma round64_mono_pos:
  assumes "0 < q" "q \<le> t" "isFinite (round64 t)"
  shows "isFinite (round64 q) \<and> val (round64 q) \<le> val (round64 t)"
proof -
  define eq where "eq = max (ilog 2 q) (- 1022)"
  define et where "et = max (ilog 2 t) (- 1022)"
  define vq where "vq = real_of_int (roundHalfEven (q / pow2 (eq - 52))) * pow2 (eq - 52)"
  define vt where "vt = real_of_int (roundHalfEven (t / pow2 (et - 52))) * pow2 (et - 52)"
  from assms have tpos: "0 < t" by simp
  from round64_pos_cases [OF tpos] assms(3)
  have t: "vt < pow2 1024" "round64 t = Fin vt" by (auto simp: vt_def et_def)
  have le: "eq \<le> et" using ilog2_mono [OF assms(1,2)] by (simp add: eq_def et_def)
  have "vq \<le> vt"
  proof (cases "eq = et")
    case True
    have "q / pow2 (et - 52) \<le> t / pow2 (et - 52)"
      using assms(2) pow2_pos [of "et - 52"] by (simp add: divide_right_mono)
    from roundHalfEven_mono [OF this] pow2_pos [of "et - 52"]
    show ?thesis by (simp add: vq_def vt_def True)
  next
    case False
    with le have lt: "eq + 1 \<le> et" by simp
    then have "- 1022 < et" by (simp add: eq_def)
    then have "et = ilog 2 t" by (simp add: et_def)
    with ilog2_bounds [OF tpos] have "pow2 et \<le> t" by simp
    from round64_mag(1) [OF tpos] this have a: "pow2 et \<le> vt" by (simp add: vt_def et_def)
    from round64_mag(2) [OF assms(1)] have "vq \<le> pow2 (eq + 1)" by (simp add: vq_def eq_def)
    also have "\<dots> \<le> pow2 et" using lt by (rule pow2_mono)
    finally show ?thesis using a by simp
  qed
  with t have "vq < pow2 1024" by simp
  with round64_pos_cases [OF assms(1)] have "round64 q = Fin vq" by (auto simp: vq_def eq_def)
  with t \<open>vq \<le> vt\<close> show ?thesis by simp
qed

lemma round64_pos_nonneg:
  assumes "0 < q" "isFinite (round64 q)"
  shows "0 \<le> val (round64 q)"
proof -
  from round64_pos_cases [OF assms(1)] assms(2) round64_mag(3) [OF assms(1)]
    pow2_pos [of "max (ilog 2 q) (- 1022) - 52"]
  show ?thesis by auto
qed

lemma round64_error:
  assumes "q \<noteq> 0" "isFinite (round64 q)"
  shows "\<bar>val (round64 q) - q\<bar> \<le> pow2 (max (ilog 2 \<bar>q\<bar>) (- 1022) - 53)"
proof -
  define e where "e = max (ilog 2 \<bar>q\<bar>) (- 1022)"
  define u where "u = pow2 (e - 52)"
  define m where "m = roundHalfEven (\<bar>q\<bar> / u)"
  have upos: "0 < u" by (simp add: u_def pow2_pos)
  have "pow2 (- 1 + (e - 52)) = pow2 (- 1) * u" unfolding u_def by (rule pow2_add)
  moreover have "- 1 + (e - 52) = e - 53" by simp
  moreover have "pow2 (- 1) = 1 / 2" by (simp add: pow2_def)
  ultimately have half: "pow2 (e - 53) = u / 2" by simp
  from roundHalfEven_bounds [of "\<bar>q\<bar> / u"]
  have "\<bar>real_of_int m - \<bar>q\<bar> / u\<bar> \<le> 1 / 2" unfolding m_def by linarith
  then have "\<bar>real_of_int m - \<bar>q\<bar> / u\<bar> * u \<le> 1 / 2 * u"
    using upos by (intro mult_right_mono) simp_all
  moreover have "real_of_int m * u - \<bar>q\<bar> = (real_of_int m - \<bar>q\<bar> / u) * u"
    using upos by (simp add: field_simps)
  then have "\<bar>real_of_int m * u - \<bar>q\<bar>\<bar> = \<bar>real_of_int m - \<bar>q\<bar> / u\<bar> * u"
    using upos by (simp add: abs_mult)
  ultimately have b: "\<bar>real_of_int m * u - \<bar>q\<bar>\<bar> \<le> u / 2" by simp
  have v: "val (round64 q) = (if q < 0 then - (real_of_int m * u) else real_of_int m * u)"
    using assms by (auto simp: round64_def Let_def m_def u_def e_def split: if_splits)
  have "\<bar>val (round64 q) - q\<bar> = \<bar>real_of_int m * u - \<bar>q\<bar>\<bar>"
  proof (cases "q < 0")
    case True
    with v have "val (round64 q) - q = - (real_of_int m * u - \<bar>q\<bar>)" by simp
    then show ?thesis by (simp only: abs_minus)
  next
    case False
    with v show ?thesis by simp
  qed
  with b show ?thesis by (simp only: half e_def [symmetric])
qed

lemma round64_small:
  assumes "\<bar>q\<bar> \<le> 1"
  shows "isFinite (round64 q) \<and> \<bar>val (round64 q) - q\<bar> \<le> 1 / 2 ^ 53"
proof (cases "q = 0")
  case True
  then show ?thesis by (simp add: round64_def)
next
  case False
  have one: "round64 1 = Fin 1" by (simp add: round64_eval)
  from False have pos: "0 < \<bar>q\<bar>" by simp
  from round64_mono_pos [OF pos assms] one have f: "isFinite (round64 \<bar>q\<bar>)" by simp
  have fin: "isFinite (round64 q)"
  proof (cases "q < 0")
    case True
    then have "round64 q = round64 (- \<bar>q\<bar>)" by simp
    also note round64_minus
    finally show ?thesis using f by (cases "round64 \<bar>q\<bar>") (auto split: if_splits)
  next
    case False
    with f show ?thesis by simp
  qed
  show ?thesis
  proof (cases "\<bar>q\<bar> = 1")
    case True
    then have "q = 1 \<or> q = - 1" by auto
    moreover have "round64 1 = Fin 1" "round64 (- 1) = Fin (- 1)" by (simp_all add: round64_eval)
    ultimately show ?thesis by auto
  next
    case F: False
    with assms have "\<bar>q\<bar> < pow2 0" by (simp add: pow2_def)
    with ilog2_bounds [OF pos] have "pow2 (ilog 2 \<bar>q\<bar>) < pow2 0" by simp
    from pow2_less_cancel [OF this] have "max (ilog 2 \<bar>q\<bar>) (- 1022) - 53 \<le> - 53" by simp
    from pow2_mono [OF this] have "pow2 (max (ilog 2 \<bar>q\<bar>) (- 1022) - 53) \<le> 1 / 2 ^ 53"
      by (simp add: pow2_def)
    with round64_error [OF False fin] fin show ?thesis by simp
  qed
qed

lemma fsub_Fin: "fsub (Fin x) (Fin y) = round64 (x - y)"
  by (simp add: fsub_def fadd_def)

lemma Math_abs_round64: "Math_abs (round64 q) = round64 \<bar>q\<bar>"
proof (cases "q < 0")
  case False
  show ?thesis
  proof (cases "q = 0")
    case True
    then show ?thesis by (simp add: round64_def)
  next
    case F: False
    with False have pos: "0 < q" by simp
    from round64_pos_cases [OF pos] round64_mag(3) [OF pos]
      pow2_pos [of "max (ilog 2 q) (- 1022) - 52"] pos
    show ?thesis by auto
  qed
next
  case True
  then have pos: "0 < \<bar>q\<bar>" by simp
  from True have "round64 q = round64 (- \<bar>q\<bar>)" by simp
  also note round64_minus
  finally have r: "round64 q = (case round64 \<bar>q\<bar> of PInf \<Rightarrow> NInf | NInf \<Rightarrow> PInf
      | Fin v \<Rightarrow> (if v = 0 then NZero else Fin (- v)) | NZero \<Rightarrow> Fin 0 | NaN \<Rightarrow> NaN)"
    using pos by (auto split: number.splits)
  from round64_pos_cases [OF pos] round64_mag(3) [OF pos]
    pow2_pos [of "max (ilog 2 \<bar>q\<bar>) (- 1022) - 52"]
  show ?thesis unfolding r by auto
qed

section \<open>Precedence of unary minus and exponentiation\<close>

lemma tokenize_neg3pow2:
  "tokenize (js ''-3^2'') = Inr [Op UMinus, Num (Fin 3), Op Power, Num (Fin 2)]"
  by (simp add: tokenize_eval round64_eval)

lemma toRPN2_neg3pow2:
  "toRPN2 [Op UMinus, Num (Fin 3), Op Power, Num (Fin 2)]
     = Inr [Num (Fin 3), Num (Fin 2), Op Power, Op UMinus]"
  by (simp add: toRPN2_def)

lemma evaluate_neg3pow2:
  "evaluateExpression M s (js ''-3^2'') = Inr (fneg (Math_pow M (Fin 3) (Fin 2)))"
  by (simp add: evaluateExpression_def tokenize_neg3pow2 toRPN2_neg3pow2 evalRPN_def)

text \<open>
  C2. With the precedence table \<open>+\<close>, \<open>-\<close> = 1 left; \<open>*\<close>, \<open>/\<close>, \<open>%\<close> = 2 left; unary
  minus = 3 right; \<open>^\<close> = 4 right, the string \<open>-3^2\<close> is parsed as \<open>-(3^2)\<close>: its postfix
  form is \<open>3 2 ^ u-\<close>, and on a host whose \<open>Math.pow(3, 2)\<close> is 9 it evaluates to
  exactly \<open>-9\<close>, not \<open>9\<close>.
\<close>

theorem neg3pow2_is_minus_nine:
  assumes "lib_pow M 3 2 = Fin 9"
  shows "OP Plus = \<lparr>prec = 1, assoc = L, arity = 2\<rparr>
       \<and> OP Minus = \<lparr>prec = 1, assoc = L, arity = 2\<rparr>
       \<and> OP Times = \<lparr>prec = 2, assoc = L, arity = 2\<rparr>
       \<and> OP Divide = \<lparr>prec = 2, assoc = L, arity = 2\<rparr>
       \<and> OP Percent = \<lparr>prec = 2, assoc = L, arity = 2\<rparr>
       \<and> OP UMinus = \<lparr>prec = 3, assoc = R, arity = 1\<rparr>
       \<and> OP Power = \<lparr>prec = 4, assoc = R, arity = 2\<rparr>
       \<and> (case tokenize (js ''-3^2'') of
             Inl e \<Rightarrow> False
           | Inr ts \<Rightarrow> toRPN2 ts = Inr [Num (Fin 3), Num (Fin 2), Op Power, Op UMinus])
       \<and> evaluateExpression M s (js ''-3^2'') = Inr (Fin (- 9))
       \<and> evaluateExpression M s (js ''-3^2'') \<noteq> Inr (Fin 9)"
  using assms
  by (simp add: evaluate_neg3pow2 tokenize_neg3pow2 toRPN2_neg3pow2 Math_pow_def isZero_def)

theorem neg3pow2_is_minus_nine_witness:
  "lib_pow roundedLib 3 2 = Fin 9
   \<and> evaluateExpression roundedLib state0 (js ''-3^2'') = Inr (Fin (- 9))"
proof -
  have h: "lib_pow roundedLib 3 2 = Fin 9"
    by (simp add: roundedLib_def round64_eval)
  show ?thesis using h neg3pow2_is_minus_nine [OF h, of state0] by simp
qed

section \<open>The percent operator\<close>

lemma tokenize_50pct4:
  "tokenize (js ''50%4'') = Inr [Num (Fin 50), Op Percent, Num (Fin 4)]"
  by (simp add: tokenize_eval round64_eval)

lemma tokenize_10pct5:
  "tokenize (js ''10%5'') = Inr [Num (Fin 10), Op Percent, Num (Fin 5)]"
  by (simp add: tokenize_eval round64_eval)

lemma tokenize_10pct5pct2:
  "tokenize (js ''10%5%2'')
     = Inr [Num (Fin 10), Op Percent, Num (Fin 5), Op Percent, Num (Fin 2)]"
  by (simp add: tokenize_eval round64_eval)

lemma percent_50_4: "fmul (Fin 50) (fdiv (Fin 4) (Fin 100)) = Fin 2"
  by (simp add: arith_eval round64_eval)

lemma percent_10_5: "fmul (Fin 10) (fdiv (Fin 5) (Fin 100)) = Fin (1 / 2)"
  by (simp add: arith_eval round64_eval)

text \<open>
  C3. The binary \<open>%\<close> computes \<open>a * (b / 100)\<close>, a percentage and not a remainder
  (\<open>10%5\<close> is \<open>0.5\<close>); it has the precedence of \<open>*\<close> and \<open>/\<close>, level 2, and associates
  to the left. So \<open>50%4\<close> evaluates to 2, and \<open>10%5%2\<close> has the postfix form
  \<open>10 5 % 2 %\<close> and evaluates as \<open>(10%5)%2\<close>.
\<close>

theorem percent_is_percentage_of:
  "applyBinary M Percent a b = fmul a (fdiv b (Fin 100))
   \<and> evalRPN M s [Num a, Num b, Op Percent] = Inr (fmul a (fdiv b (Fin 100)))
   \<and> prec (OP Percent) = 2 \<and> prec (OP Times) = 2 \<and> prec (OP Divide) = 2
   \<and> assoc (OP Percent) = L
   \<and> evaluateExpression M s (js ''50%4'') = Inr (Fin 2)
   \<and> evaluateExpression M s (js ''10%5'') = Inr (Fin (1 / 2))
   \<and> (case tokenize (js ''10%5%2'') of
         Inl e \<Rightarrow> False
       | Inr ts \<Rightarrow> toRPN2 ts
           = Inr [Num (Fin 10), Num (Fin 5), Op Percent, Num (Fin 2), Op Percent])
   \<and> evaluateExpression M s (js ''10%5%2'')
       = Inr (fmul (fmul (Fin 10) (fdiv (Fin 5) (Fin 100))) (fdiv (Fin 2) (Fin 100)))"
  by (simp add: evaluate_eval tokenize_50pct4 tokenize_10pct5 tokenize_10pct5pct2
      percent_50_4 percent_10_5)

section \<open>Mismatched parentheses\<close>

lemma lparens_simps [simp]:
  "lparens [] = 0"
  "lparens (Paren LParen # st) = Suc (lparens st)"
  "lparens (Op t # st) = lparens st"
  "lparens (Fn f # st) = lparens st"
  "lparens (Num v # st) = lparens st"
  "lparens (Const c # st) = lparens st"
  "lparens (Paren RParen # st) = lparens st"
  by (simp_all add: lparens_def)

lemma popOperators_parens:
  "popOperators t st out = (st', out') \<Longrightarrow> lparens st' = lparens st \<and> set st' \<subseteq> set st"
  by (induction t st out rule: popOperators.induct) (auto simp: Let_def split: if_splits)

lemma popToParen_empty:
  "popToParen st out = ([], out') \<Longrightarrow> lparens st = 0"
  by (induction st out rule: popToParen.induct) (auto simp: lparens_def)

lemma popToParen_found:
  "popToParen st out = (lp # st', out') \<Longrightarrow>
     lp = Paren LParen \<and> lparens st = Suc (lparens st') \<and> set st' \<subseteq> set st"
  by (induction st out rule: popToParen.induct) (auto simp: lparens_def)

lemma popAll_parens:
  "Paren RParen \<notin> set st \<Longrightarrow>
     (if lparens st = 0 then \<exists>rpn. popAll st out = Inr rpn
      else popAll st out = Inl MismatchedParentheses)"
proof (induction st arbitrary: out)
  case Nil
  then show ?case by simp
next
  case (Cons t st)
  show ?case
  proof (cases t)
    case (Paren p)
    with Cons.prems show ?thesis by (cases p) simp_all
  qed (use Cons in auto)
qed

lemma noParen_append [simp]: "noParen (xs @ ys) = (noParen xs \<and> noParen ys)"
  by (induction xs rule: noParen.induct) simp_all

lemma rparen_step:
  assumes "popToParen st out = (lp # rest, out')"
  shows "\<exists>st'' out''. toRPN2_loop (Paren RParen # ts) out st = toRPN2_loop ts out'' st''
           \<and> lparens st'' = lparens rest \<and> set st'' \<subseteq> set rest
           \<and> (noParen out' \<longrightarrow> noParen out'')"
proof (cases rest)
  case Nil
  with assms show ?thesis
    by (intro exI [of _ "[]"] exI [of _ out']) simp
next
  case (Cons u rest')
  show ?thesis
  proof (cases u)
    case (Fn f)
    with assms Cons show ?thesis
      by (intro exI [of _ rest'] exI [of _ "out' @ [Fn f]"]) auto
  qed (use assms Cons in \<open>(intro exI [of _ rest] exI [of _ out'], simp)+\<close>)
qed

lemma toRPN2_loop_parens:
  "Paren RParen \<notin> set st \<Longrightarrow>
     (if parenDepth ts (lparens st) = Some 0 then \<exists>rpn. toRPN2_loop ts out st = Inr rpn
      else toRPN2_loop ts out st = Inl MismatchedParentheses)"
proof (induction ts arbitrary: out st)
  case Nil
  then show ?case using popAll_parens [of st out] by (auto split: if_splits)
next
  case (Cons t ts)
  note IH = Cons.IH and clean = Cons.prems
  show ?case
  proof (cases t)
    case (Num v)
    with IH [OF clean, of "out @ [Num v]"] show ?thesis by simp
  next
    case (Const c)
    with IH [OF clean, of "out @ [Const c]"] show ?thesis by simp
  next
    case (Op b)
    obtain st' out' where p: "popOperators b st out = (st', out')"
      by (cases "popOperators b st out")
    from popOperators_parens [OF p] clean
    have n: "lparens st' = lparens st" and c: "Paren RParen \<notin> set (Op b # st')" by auto
    from IH [OF c, of out'] n p Op show ?thesis by simp
  next
    case (Fn f)
    show ?thesis
    proof (cases "f = Fact")
      case True
      with IH [OF clean, of "out @ [Fn Fact]"] Fn show ?thesis by simp
    next
      case False
      from clean have c: "Paren RParen \<notin> set (Fn f # st)" by simp
      from IH [OF c, of out] Fn False show ?thesis by simp
    qed
  next
    case (Paren p)
    show ?thesis
    proof (cases p)
      case LParen
      from clean have c: "Paren RParen \<notin> set (Paren LParen # st)" by simp
      from IH [OF c, of out] Paren LParen show ?thesis by simp
    next
      case RParen
      obtain st' out' where q: "popToParen st out = (st', out')"
        by (cases "popToParen st out")
      show ?thesis
      proof (cases st')
        case Nil
        with q popToParen_empty [of st out out'] Paren RParen show ?thesis by simp
      next
        case (Cons lp rest)
        with q have q': "popToParen st out = (lp # rest, out')" by simp
        from popToParen_found [OF q'] clean
        have n: "lparens st = Suc (lparens rest)" and r: "Paren RParen \<notin> set rest" by auto
        from rparen_step [OF q', of ts] obtain st'' out''
          where step: "toRPN2_loop (Paren RParen # ts) out st = toRPN2_loop ts out'' st''"
            and n': "lparens st'' = lparens rest" and sub: "set st'' \<subseteq> set rest" by blast
        from r sub have c: "Paren RParen \<notin> set st''" by auto
        from IH [OF c, of out''] step n n' Paren RParen show ?thesis by simp
      qed
    qed
  qed
qed

text \<open>
  C9. Reading the tokens from left to right with a nesting depth, a parenthesis mismatch
  is a closing parenthesis read at depth 0 (no \<open>(\<close> is on the stack) or a positive depth
  at the end of the input (a \<open>(\<close> remains on the stack). \<open>toRPN2\<close> fails with
  "Mismatched parentheses" on exactly these token sequences and returns a postfix
  sequence on all others; so does \<open>evaluateExpression\<close>, for instance on \<open>(2+3\<close>.
\<close>

theorem mismatched_parentheses:
  "(parenDepth ts 0 \<noteq> Some 0 \<longrightarrow> toRPN2 ts = Inl MismatchedParentheses)
   \<and> (parenDepth ts 0 = Some 0 \<longrightarrow> (\<exists>rpn. toRPN2 ts = Inr rpn))
   \<and> (tokenize raw = Inr ts \<and> parenDepth ts 0 \<noteq> Some 0
        \<longrightarrow> evaluateExpression M s raw = Inl MismatchedParentheses)
   \<and> evaluateExpression M s (js ''(2+3'') = Inl MismatchedParentheses"
proof -
  have a: "if parenDepth ts 0 = Some 0 then \<exists>rpn. toRPN2 ts = Inr rpn
           else toRPN2 ts = Inl MismatchedParentheses"
    using toRPN2_loop_parens [of "[]" ts "[]"] by (simp add: toRPN2_def)
  have b: "evaluateExpression M s (js ''(2+3'') = Inl MismatchedParentheses"
    by (simp add: evaluate_eval tokenize_eval round64_eval)
  from a b show ?thesis by (auto simp: evaluateExpression_def)
qed


theorem mismatched_parentheses_witness:
  "toRPN2 [Paren LParen, Num (Fin 2)] = Inl MismatchedParentheses
   \<and> toRPN2 [Num (Fin 2), Paren RParen] = Inl MismatchedParentheses
   \<and> (\<exists>rpn. toRPN2 [Paren LParen, Num (Fin 2), Paren RParen] = Inr rpn)
   \<and> evaluateExpression roundedLib state0 (js '')'') = Inl MismatchedParentheses"
proof -
  have t: "tokenize (js '')'') = Inr [Paren RParen]"
    by (simp add: tokenize_eval)
  show ?thesis
    using mismatched_parentheses [of "[Paren LParen, Num (Fin 2)]"]
      mismatched_parentheses [of "[Num (Fin 2), Paren RParen]"]
      mismatched_parentheses [of "[Paren LParen, Num (Fin 2), Paren RParen]"]
      mismatched_parentheses [of "[Paren RParen]" "js '')''" roundedLib state0] t
    by simp
qed

section \<open>Implicit multiplication\<close>

lemma canLeft_leftKind: "canLeft (Some t) = leftKind t"
  by (cases t rule: leftKind.cases) simp_all

lemma canRight_rightKind: "canRight (Some t) = rightKind t"
  by (cases t rule: rightKind.cases) simp_all

lemma canLeft_not_fn: "canLeft p \<Longrightarrow> \<not> isFn p"
  by (cases p rule: canLeft.cases) simp_all

lemma implicit_loop_spec:
  "insertImplicitMultiplication_loop ts (out @ [p]) = out @ implicitSpec (p # ts)"
proof (induction ts arbitrary: out p)
  case Nil
  show ?case by simp
next
  case (Cons cur ts)
  have a: "insertImplicitMultiplication_loop ts (out @ [p] @ [Op Times] @ [cur])
             = (out @ [p, Op Times]) @ implicitSpec (cur # ts)"
    using Cons.IH [of "out @ [p, Op Times]" cur] by simp
  have b: "insertImplicitMultiplication_loop ts (out @ [p] @ [cur])
             = (out @ [p]) @ implicitSpec (cur # ts)"
    using Cons.IH [of "out @ [p]" cur] by simp
  show ?case
    using a b canLeft_not_fn [of "Some p"]
    by (auto simp: lastOpt_def canLeft_leftKind canRight_rightKind Let_def)
qed

lemma implicit_refines: "insertImplicitMultiplication ts = implicitSpec ts"
proof (cases ts)
  case Nil
  then show ?thesis by (simp add: insertImplicitMultiplication_def)
next
  case (Cons t ts')
  then show ?thesis
    using implicit_loop_spec [of ts' "[]" t]
    by (simp add: insertImplicitMultiplication_def lastOpt_def)
qed

lemma implicitSpec_fn_paren:
  "implicitSpec (xs @ Fn f # Paren LParen # ys)
     = implicitSpec (xs @ [Fn f]) @ implicitSpec (Paren LParen # ys)"
  by (induction xs rule: implicitSpec.induct) auto

lemma tokenize_2pi: "tokenize (js ''2pi'') = Inr [Num (Fin 2), Op Times, Const Pi]"
  by (simp add: tokenize_eval round64_eval)

lemma tokenize_2timespi: "tokenize (js ''2*pi'') = Inr [Num (Fin 2), Op Times, Const Pi]"
  by (simp add: tokenize_eval round64_eval)

lemma two_pi: "fmul (Fin 2) Math_PI = Fin (884279719003555 / 140737488355328)"
  by (simp add: arith_eval round64_eval Math_PI_def)

text \<open>
  C7. \<open>insertImplicitMultiplication\<close> inserts a \<open>*\<close> between adjacent tokens \<open>a\<close>, \<open>b\<close>
  exactly when \<open>a\<close> is a number, a constant or a closing parenthesis and \<open>b\<close> is a number,
  a constant, a function or an opening parenthesis; nothing is inserted between a function
  and its opening parenthesis. So \<open>2pi\<close> and \<open>2*pi\<close> have the same tokens and the same
  value, \<open>2 * Math.PI\<close>, which is \<open>6.28318530718\<close> to eleven decimals.
\<close>

theorem implicit_multiplication:
  "insertImplicitMultiplication ts = implicitSpec ts
   \<and> insertImplicitMultiplication (xs @ Fn f # Paren LParen # ys)
       = insertImplicitMultiplication (xs @ [Fn f])
         @ insertImplicitMultiplication (Paren LParen # ys)
   \<and> tokenize (js ''2pi'') = tokenize (js ''2*pi'')
   \<and> evaluateExpression M s (js ''2pi'') = evaluateExpression M s (js ''2*pi'')
   \<and> evaluateExpression M s (js ''2*pi'') = Inr (fmul (Fin 2) Math_PI)
   \<and> fmul (Fin 2) Math_PI = Fin (2 * val Math_PI)
   \<and> \<bar>2 * val Math_PI - 6.28318530718\<bar> < 1 / 10 ^ 11"
  by (simp add: implicit_refines implicitSpec_fn_paren tokenize_2pi tokenize_2timespi
      evaluate_eval two_pi) (simp add: Math_PI_def)

section \<open>Stack discipline of the evaluator\<close>

lemma depthAgrees_simps [simp]:
  "depthAgrees (Inr v) d = (d = Some 1)"
  "depthAgrees (Inl BadExpression) d = (d \<noteq> Some 1)"
  "depthAgrees (Inl BadFunction) d = (d \<noteq> Some 1)"
  "depthAgrees (Inl UnknownTokenType) d = (d \<noteq> Some 1)"
  by (simp_all add: depthAgrees_def)

lemma arity_cases: "arity (OP t) = (if t = UMinus then 1 else 2)"
  by (cases t) simp_all

lemma evalRPN_loop_depth:
  "depthAgrees (evalRPN_loop M s rpn st) (stackDepth rpn (length st))"
proof (induction rpn arbitrary: st)
  case Nil
  show ?case
  proof (cases st)
    case Nil
    then show ?thesis by simp
  next
    case (Cons v st')
    then show ?thesis by (cases st') simp_all
  qed
next
  case (Cons t rpn)
  show ?case
  proof (cases t)
    case (Num v)
    with Cons.IH [of "v # st"] show ?thesis by simp
  next
    case (Const c)
    with Cons.IH [of "constValue s c # st"] show ?thesis by simp
  next
    case (Op b)
    show ?thesis
    proof (cases st)
      case Nil
      with Op show ?thesis by (simp add: arity_cases)
    next
      case (Cons x st')
      note st = Cons
      show ?thesis
      proof (cases "b = UMinus")
        case True
        with Cons.IH [of "fneg x # st'"] Op st show ?thesis by simp
      next
        case False
        show ?thesis
        proof (cases st')
          case Nil
          with Op st False show ?thesis by (simp add: arity_cases)
        next
          case (Cons y st'')
          with Cons.IH [of "applyBinary M b y x # st''"] Op st False
          show ?thesis by (simp add: arity_cases)
        qed
      qed
    qed
  next
    case (Fn f)
    show ?thesis
    proof (cases st)
      case Nil
      with Fn show ?thesis by simp
    next
      case (Cons x st')
      with Cons.IH [of "applyFunction M (mode s) f x # st'"] Fn show ?thesis by simp
    qed
  next
    case (Paren p)
    then show ?thesis by simp
  qed
qed

lemma evalRPN_depth: "depthAgrees (evalRPN M s rpn) (stackDepth rpn 0)"
  using evalRPN_loop_depth [of M s rpn "[]"] by (simp add: evalRPN_def)

lemma stackDepth_paren: "\<not> noParen rpn \<Longrightarrow> stackDepth rpn d = None"
  by (induction rpn d rule: stackDepth.induct) (simp_all split: if_splits)

lemma evalRPN_noParen:
  "noParen rpn \<Longrightarrow> evalRPN_loop M s rpn st \<noteq> Inl UnknownTokenType"
proof (induction M s rpn st rule: evalRPN_loop.induct)
  case (1 M s st)
  then show ?case by (simp split: list.splits)
next
  case (4 M s t ts st)
  then show ?case by (simp split: list.splits)
next
  case (5 M s f ts st)
  then show ?case by (simp split: list.splits)
qed simp_all

lemma popOperators_noParen:
  "popOperators t st out = (st', out') \<Longrightarrow> noParen out \<Longrightarrow> noParen out'"
  by (induction t st out rule: popOperators.induct) (auto simp: Let_def split: if_splits)

lemma popToParen_noParen:
  "popToParen st out = (st', out') \<Longrightarrow> Paren RParen \<notin> set st \<Longrightarrow> noParen out
     \<Longrightarrow> noParen out'"
proof (induction st arbitrary: out)
  case Nil
  then show ?case by simp
next
  case (Cons t st)
  show ?case
  proof (cases t)
    case (Paren p)
    with Cons.prems show ?thesis by (cases p) auto
  qed (use Cons in auto)
qed

lemma popAll_noParen: "popAll st out = Inr rpn \<Longrightarrow> noParen out \<Longrightarrow> noParen rpn"
proof (induction st arbitrary: out)
  case Nil
  then show ?case by simp
next
  case (Cons t st)
  then show ?case by (cases t) (auto split: if_splits)
qed

lemma toRPN2_loop_noParen:
  "toRPN2_loop ts out st = Inr rpn \<Longrightarrow> Paren RParen \<notin> set st \<Longrightarrow> noParen out
     \<Longrightarrow> noParen rpn"
proof (induction ts arbitrary: out st)
  case Nil
  then show ?case using popAll_noParen [of st out rpn] by simp
next
  case (Cons t ts)
  note IH = Cons.IH and run = Cons.prems(1) and clean = Cons.prems(2) and np = Cons.prems(3)
  show ?case
  proof (cases t)
    case (Num v)
    with IH [of "out @ [Num v]" st] run clean np show ?thesis by simp
  next
    case (Const c)
    with IH [of "out @ [Const c]" st] run clean np show ?thesis by simp
  next
    case (Op b)
    obtain st' out' where p: "popOperators b st out = (st', out')"
      by (cases "popOperators b st out")
    from popOperators_parens [OF p] clean have c: "Paren RParen \<notin> set (Op b # st')" by auto
    from IH [of out' "Op b # st'"] run p Op c popOperators_noParen [OF p np]
    show ?thesis by simp
  next
    case (Fn f)
    show ?thesis
    proof (cases "f = Fact")
      case True
      with IH [of "out @ [Fn Fact]" st] run clean np Fn show ?thesis by simp
    next
      case False
      with IH [of out "Fn f # st"] run clean np Fn show ?thesis by simp
    qed
  next
    case (Paren p)
    show ?thesis
    proof (cases p)
      case LParen
      with IH [of out "Paren LParen # st"] run clean np Paren show ?thesis by simp
    next
      case RParen
      obtain st' out' where q: "popToParen st out = (st', out')"
        by (cases "popToParen st out")
      note np' = popToParen_noParen [OF q clean np]
      show ?thesis
      proof (cases st')
        case Nil
        with q run Paren RParen show ?thesis by simp
      next
        case (Cons lp rest)
        with q have q': "popToParen st out = (lp # rest, out')" by simp
        from popToParen_found [OF q'] clean have r: "Paren RParen \<notin> set rest" by auto
        from rparen_step [OF q', of ts] np' obtain st'' out''
          where step: "toRPN2_loop (Paren RParen # ts) out st = toRPN2_loop ts out'' st''"
            and sub: "set st'' \<subseteq> set rest" and np'': "noParen out''" by blast
        from r sub have c: "Paren RParen \<notin> set st''" by auto
        from IH [of out'' st''] step run Paren RParen c np'' show ?thesis by simp
      qed
    qed
  qed
qed

lemma toRPN2_noParen: "toRPN2 ts = Inr rpn \<Longrightarrow> noParen rpn"
  using toRPN2_loop_noParen [of ts "[]" "[]" rpn] by (simp add: toRPN2_def)


lemma tokenize_2plus: "tokenize (js ''2+'') = Inr [Num (Fin 2), Op Plus]"
  by (simp add: tokenize_eval round64_eval)

lemma stackDepth_append:
  "stackDepth (xs @ ys) d = (case stackDepth xs d of None \<Rightarrow> None | Some d' \<Rightarrow> stackDepth ys d')"
  by (induction xs d rule: stackDepth.induct) simp_all

lemma popOperators_infix:
  assumes "onStack st" "stackDepth out 0 = Some (binaryOps st + 1)"
    "popOperators t st out = (st', out')"
  shows "onStack st' \<and> stackDepth out' 0 = Some (binaryOps st' + 1) \<and> lparens st' = lparens st"
  using assms
proof (induction t st out arbitrary: st' out' rule: popOperators.induct)
  case (2 t tp stack outp)
  show ?case
  proof (cases "(assoc (OP t) = L \<and> prec (OP t) \<le> prec (OP tp))
      \<or> (assoc (OP t) = R \<and> prec (OP t) < prec (OP tp))")
    case True
    have d: "stackDepth (outp @ [Op tp]) 0 = Some (binaryOps stack + 1)"
      using "2.prems"(2) by (cases tp) (simp_all add: stackDepth_append)
    from "2.prems"(3) True have p: "popOperators t stack (outp @ [Op tp]) = (st', out')"
      by (simp add: Let_def)
    from "2.IH" [OF refl refl True _ d p] "2.prems"(1) show ?thesis by simp
  next
    case False
    with "2.prems" show ?thesis by (auto simp: Let_def)
  qed
next
  case (3 t f stack outp)
  have d: "stackDepth (outp @ [Fn f]) 0 = Some (binaryOps stack + 1)"
    using "3.prems"(2) by (simp add: stackDepth_append)
  from "3.IH" [OF _ d] "3.prems" show ?case by simp
qed auto

lemma popOperators_UMinus_top:
  "t \<noteq> Power \<Longrightarrow> popOperators UMinus (Op t # st) out = (Op t # st, out)"
  by (cases t) simp_all

lemma popToParen_infix:
  assumes "onStack st" "stackDepth out 0 = Some (binaryOps st + 1)" "0 < lparens st"
  shows "\<exists>st' out'. popToParen st out = (Paren LParen # st', out') \<and> onStack st'
      \<and> stackDepth out' 0 = Some (binaryOps st' + 1) \<and> lparens st = Suc (lparens st')"
  using assms
proof (induction st arbitrary: out)
  case Nil
  then show ?case by simp
next
  case (Cons tp stack)
  show ?case
  proof (cases tp)
    case (Op t)
    have d: "stackDepth (out @ [Op t]) 0 = Some (binaryOps stack + 1)"
      using Cons.prems(2) Op by (cases t) (simp_all add: stackDepth_append)
    from Cons.IH [OF _ d] Cons.prems Op show ?thesis by simp
  next
    case (Fn f)
    have d: "stackDepth (out @ [Fn f]) 0 = Some (binaryOps stack + 1)"
      using Cons.prems(2) Fn by (simp add: stackDepth_append)
    from Cons.IH [OF _ d] Cons.prems Fn show ?thesis by simp
  next
    case (Paren pp)
    with Cons.prems show ?thesis by (cases pp) simp_all
  qed (use Cons.prems in simp_all)
qed

lemma popAll_infix:
  assumes "onStack st" "stackDepth out 0 = Some (binaryOps st + 1)" "lparens st = 0"
  shows "\<exists>rpn. popAll st out = Inr rpn \<and> stackDepth rpn 0 = Some 1"
  using assms
proof (induction st arbitrary: out)
  case Nil
  then show ?case by simp
next
  case (Cons t stack)
  show ?case
  proof (cases t)
    case (Op o')
    have d: "stackDepth (out @ [Op o']) 0 = Some (binaryOps stack + 1)"
      using Cons.prems(2) Op by (cases o') (simp_all add: stackDepth_append)
    from Cons.IH [OF _ d] Cons.prems Op show ?thesis by simp
  next
    case (Fn f)
    have d: "stackDepth (out @ [Fn f]) 0 = Some (binaryOps stack + 1)"
      using Cons.prems(2) Fn by (simp add: stackDepth_append)
    from Cons.IH [OF _ d] Cons.prems Fn show ?thesis by simp
  next
    case (Paren pp)
    with Cons.prems show ?thesis by (cases pp) simp_all
  qed (use Cons.prems in simp_all)
qed

lemma toRPN2_loop_wellFormed:
  assumes "wellFormedFrom prev p ts" "parserInv prev p out st"
  shows "\<exists>rpn. toRPN2_loop ts out st = Inr rpn \<and> stackDepth rpn 0 = Some 1"
  using assms
proof (induction ts arbitrary: prev p out st)
  case Nil
  then show ?case using popAll_infix [of st out] by (simp add: parserInv_def)
next
  case (Cons t ts)
  show ?case
  proof (cases t)
    case (Num v)
    with Cons.prems have w: "operandMayStart prev" "wellFormedFrom (Some (Num v)) p ts" by simp_all
    from Cons.prems(2) w(1) have "parserInv (Some (Num v)) p (out @ [Num v]) st"
      by (simp add: parserInv_def stackDepth_append)
    from Cons.IH [OF w(2) this] Num show ?thesis by simp
  next
    case (Const c)
    with Cons.prems have w: "operandMayStart prev" "wellFormedFrom (Some (Const c)) p ts"
      by simp_all
    from Cons.prems(2) w(1) have "parserInv (Some (Const c)) p (out @ [Const c]) st"
      by (simp add: parserInv_def stackDepth_append)
    from Cons.IH [OF w(2) this] Const show ?thesis by simp
  next
    case (Fn f)
    with Cons.prems have w: "f \<noteq> Fact" "operandMayStart prev"
      "wellFormedFrom (Some (Fn f)) p ts" by simp_all
    from Cons.prems(2) w(2) have "parserInv (Some (Fn f)) p out (Fn f # st)"
      by (simp add: parserInv_def)
    from Cons.IH [OF w(3) this] Fn w(1) show ?thesis by simp
  next
    case (Op o')
    with Cons.prems have w: "wellFormedFrom (Some (Op o')) p ts" by simp
    show ?thesis
    proof (cases "o' = UMinus")
      case True
      with Cons.prems(1) Op have u: "unaryMinusMayStart prev" by simp
      then have pre: "operandMayStart prev"
        by (cases prev rule: unaryMinusMayStart.cases) simp_all
      from u Cons.prems(2) consider "st = []" | t' st' where "st = Op t' # st'" "t' \<noteq> Power"
        | st' where "st = Paren LParen # st'"
        by (cases prev rule: unaryMinusMayStart.cases) (auto simp: parserInv_def)
      then have "popOperators UMinus st out = (st, out)"
        by cases (simp_all add: popOperators_UMinus_top del: popOperators.simps(2))
      moreover from Cons.prems(2) pre have "parserInv (Some (Op UMinus)) p out (Op UMinus # st)"
        by (simp add: parserInv_def)
      ultimately show ?thesis using Cons.IH [OF w [unfolded True]] Op True by simp
    next
      case False
      with Cons.prems(1) Op have pre: "\<not> operandMayStart prev" by simp
      obtain st' out' where po: "popOperators o' st out = (st', out')" by force
      from Cons.prems(2) pre popOperators_infix [OF _ _ po]
      have "onStack st'" "stackDepth out' 0 = Some (binaryOps st' + 1)" "lparens st' = p"
        by (simp_all add: parserInv_def)
      with False have "parserInv (Some (Op o')) p out' (Op o' # st')"
        by (simp add: parserInv_def)
      from Cons.IH [OF w this] Op po show ?thesis by simp
    qed
  next
    case (Paren pp)
    show ?thesis
    proof (cases pp)
      case LParen
      with Cons.prems Paren have w: "operandMayStart prev"
        "wellFormedFrom (Some (Paren LParen)) (Suc p) ts" by simp_all
      from Cons.prems(2) w(1) have "parserInv (Some (Paren LParen)) (Suc p) out (Paren LParen # st)"
        by (simp add: parserInv_def)
      from Cons.IH [OF w(2) this] Paren LParen show ?thesis by simp
    next
      case RParen
      with Cons.prems Paren have w: "\<not> operandMayStart prev" "0 < p"
        "wellFormedFrom (Some (Paren RParen)) (p - 1) ts" by simp_all
      from Cons.prems(2) w(1,2) popToParen_infix [of st out]
      obtain st' out' where pp: "popToParen st out = (Paren LParen # st', out')"
        and inv: "onStack st'" "stackDepth out' 0 = Some (binaryOps st' + 1)"
          "lparens st' = p - 1"
        by (auto simp: parserInv_def)
      show ?thesis
      proof (cases "\<exists>f st''. st' = Fn f # st''")
        case True
        then obtain f st'' where f: "st' = Fn f # st''" by blast
        with inv have "parserInv (Some (Paren RParen)) (p - 1) (out' @ [Fn f]) st''"
          by (simp add: parserInv_def stackDepth_append)
        from Cons.IH [OF w(3) this] Paren RParen pp f show ?thesis by simp
      next
        case False
        from inv have i: "parserInv (Some (Paren RParen)) (p - 1) out' st'"
          by (simp add: parserInv_def)
        from False have "(case st' of Fn f # st'' \<Rightarrow> toRPN2_loop ts (out' @ [Fn f]) st''
            | _ \<Rightarrow> toRPN2_loop ts out' st') = toRPN2_loop ts out' st'"
          by (auto split: list.splits token.splits)
        with Cons.IH [OF w(3) i] Paren RParen pp show ?thesis by simp
      qed
    qed
  qed
qed

lemma wellFormed_parses:
  assumes "wellFormed ts"
  shows "\<exists>rpn. toRPN2 ts = Inr rpn \<and> stackDepth rpn 0 = Some 1"
  using toRPN2_loop_wellFormed [of None 0 ts "[]" "[]"] assms
  by (simp add: wellFormed_def toRPN2_def parserInv_def)

lemma evalRPN_value_iff: "(\<exists>v. evalRPN M s rpn = Inr v) \<longleftrightarrow> stackDepth rpn 0 = Some 1"
  using evalRPN_depth [of M s rpn] by (cases "evalRPN M s rpn") (auto simp: depthAgrees_def)

lemma tokenize_rich:
  "tokenize (js ''-2(3+sin(-pi))^2'')
     = Inr [Op UMinus, Num (Fin 2), Op Times, Paren LParen, Num (Fin 3), Op Plus, Fn Sin,
         Paren LParen, Op UMinus, Const Pi, Paren RParen, Paren RParen, Op Power, Num (Fin 2)]"
  by (simp add: tokenize_eval round64_eval)

text \<open>
  C1, as the code has it. When the token sequence of the input is a well-formed infix
  expression, \<open>toRPN2\<close> returns a postfix sequence on which the depth of the value
  stack never falls below the number of operands a step needs and is exactly 1 at the
  end, and \<open>evalRPN\<close> returns a value. In general \<open>evalRPN\<close> returns a value exactly
  when the depth behaves so; for any other sequence that the parser produces from an
  accepted string it raises "Bad expression" or "Bad function" by its length guards.
\<close>

theorem postfix_stack_discipline:
  "(wellFormed ts \<longrightarrow>
      (\<exists>rpn. toRPN2 ts = Inr rpn \<and> stackDepth rpn 0 = Some 1
         \<and> (\<exists>v. evalRPN M s rpn = Inr v)))
   \<and> (tokenize raw = Inr ts \<and> wellFormed ts \<longrightarrow>
      (\<exists>v. evaluateExpression M s raw = Inr v))
   \<and> ((\<exists>v. evalRPN M s rpn = Inr v) \<longleftrightarrow> stackDepth rpn 0 = Some 1)
   \<and> (tokenize raw = Inr ts \<and> toRPN2 ts = Inr rpn \<and> stackDepth rpn 0 \<noteq> Some 1 \<longrightarrow>
      evaluateExpression M s raw = Inl BadExpression
      \<or> evaluateExpression M s raw = Inl BadFunction)"
proof -
  have a: "wellFormed ts \<longrightarrow>
      (\<exists>rpn. toRPN2 ts = Inr rpn \<and> stackDepth rpn 0 = Some 1
         \<and> (\<exists>v. evalRPN M s rpn = Inr v))"
    using wellFormed_parses [of ts] evalRPN_value_iff [of M s] by blast
  have b: "tokenize raw = Inr ts \<and> wellFormed ts \<longrightarrow>
      (\<exists>v. evaluateExpression M s raw = Inr v)"
  proof (intro impI, elim conjE)
    assume t: "tokenize raw = Inr ts" and w: "wellFormed ts"
    from a w obtain rpn v where "toRPN2 ts = Inr rpn" "evalRPN M s rpn = Inr v" by blast
    with t have "evaluateExpression M s raw = Inr v" by (simp add: evaluateExpression_def)
    then show "\<exists>v. evaluateExpression M s raw = Inr v" ..
  qed
  have d: "tokenize raw = Inr ts \<and> toRPN2 ts = Inr rpn \<and> stackDepth rpn 0 \<noteq> Some 1 \<longrightarrow>
      evaluateExpression M s raw = Inl BadExpression
      \<or> evaluateExpression M s raw = Inl BadFunction"
  proof (intro impI, elim conjE)
    assume t: "tokenize raw = Inr ts" and p: "toRPN2 ts = Inr rpn"
      and n: "stackDepth rpn 0 \<noteq> Some 1"
    have ev: "evaluateExpression M s raw = evalRPN M s rpn"
      using t p by (simp add: evaluateExpression_def)
    have np: "evalRPN M s rpn \<noteq> Inl UnknownTokenType"
      using evalRPN_noParen [OF toRPN2_noParen [OF p], of M s "[]"]
      by (simp add: evalRPN_def)
    show "evaluateExpression M s raw = Inl BadExpression
      \<or> evaluateExpression M s raw = Inl BadFunction"
      using evalRPN_depth [of M s rpn] ev np n
      by (cases "evalRPN M s rpn") (auto simp: depthAgrees_def)
  qed
  from a b evalRPN_value_iff [of M s rpn] d show ?thesis by (intro conjI)
qed

theorem postfix_stack_discipline_witness:
  "tokenize (js ''-2(3+sin(-pi))^2'')
     = Inr [Op UMinus, Num (Fin 2), Op Times, Paren LParen, Num (Fin 3), Op Plus, Fn Sin,
         Paren LParen, Op UMinus, Const Pi, Paren RParen, Paren RParen, Op Power, Num (Fin 2)]
   \<and> wellFormed [Op UMinus, Num (Fin 2), Op Times, Paren LParen, Num (Fin 3), Op Plus, Fn Sin,
         Paren LParen, Op UMinus, Const Pi, Paren RParen, Paren RParen, Op Power, Num (Fin 2)]
   \<and> (\<exists>rpn. toRPN2 [Op UMinus, Num (Fin 2), Op Times, Paren LParen, Num (Fin 3), Op Plus,
         Fn Sin, Paren LParen, Op UMinus, Const Pi, Paren RParen, Paren RParen, Op Power,
         Num (Fin 2)] = Inr rpn \<and> stackDepth rpn 0 = Some 1)
   \<and> (\<exists>v. evaluateExpression roundedLib state0 (js ''-2(3+sin(-pi))^2'') = Inr v)
   \<and> tokenize (js ''2+'') = Inr [Num (Fin 2), Op Plus]
   \<and> toRPN2 [Num (Fin 2), Op Plus] = Inr [Num (Fin 2), Op Plus]
   \<and> stackDepth [Num (Fin 2), Op Plus] 0 \<noteq> Some 1
   \<and> evaluateExpression roundedLib state0 (js ''2+'') = Inl BadExpression"
proof -
  let ?ts = "[Op UMinus, Num (Fin 2), Op Times, Paren LParen, Num (Fin 3), Op Plus, Fn Sin,
         Paren LParen, Op UMinus, Const Pi, Paren RParen, Paren RParen, Op Power, Num (Fin 2)]"
  have w: "wellFormed ?ts" by (simp add: wellFormed_def)
  note t = postfix_stack_discipline [where ts = ?ts and raw = "js ''-2(3+sin(-pi))^2''"
      and M = roundedLib and s = state0]
  from t w have a: "\<exists>rpn. toRPN2 ?ts = Inr rpn \<and> stackDepth rpn 0 = Some 1" by blast
  from t w tokenize_rich
  have b: "\<exists>v. evaluateExpression roundedLib state0 (js ''-2(3+sin(-pi))^2'') = Inr v"
    by blast
  have p: "toRPN2 [Num (Fin 2), Op Plus] = Inr [Num (Fin 2), Op Plus]"
    by (simp add: toRPN2_def)
  have n: "stackDepth [Num (Fin 2), Op Plus] 0 \<noteq> Some 1" by simp
  have nf: "evaluateExpression roundedLib state0 (js ''2+'') \<noteq> Inl BadFunction"
    by (simp add: evaluate_eval tokenize_2plus)
  from postfix_stack_discipline [where ts = "[Num (Fin 2), Op Plus]" and raw = "js ''2+''"
      and rpn = "[Num (Fin 2), Op Plus]" and M = roundedLib and s = state0] tokenize_2plus p n
  have "evaluateExpression roundedLib state0 (js ''2+'') = Inl BadExpression
      \<or> evaluateExpression roundedLib state0 (js ''2+'') = Inl BadFunction" by blast
  with nf have c: "evaluateExpression roundedLib state0 (js ''2+'') = Inl BadExpression"
    by blast
  from tokenize_rich w a b tokenize_2plus p n c show ?thesis by (intro conjI)
qed

theorem lexer_accepted_underflow_counterexample:
  "tokenize (js ''2+'') = Inr [Num (Fin 2), Op Plus]
   \<and> toRPN2 [Num (Fin 2), Op Plus] = Inr [Num (Fin 2), Op Plus]
   \<and> stackDepth [Num (Fin 2), Op Plus] 0 = None
   \<and> evalRPN roundedLib state0 [Num (Fin 2), Op Plus] = Inl BadExpression
   \<and> evaluateExpression roundedLib state0 (js ''2+'') = Inl BadExpression"
  by (simp add: tokenize_2plus evaluate_eval)

section \<open>Exponentiation followed by unary minus\<close>








lemma stackDepth_underflow_prefix:
  "stackDepth (t # Op Power # zs) 0 = None" if "t = Num a \<or> t = Const c"
  using that by auto







section \<open>The formatting contract\<close>

lemma natString_small [simp]: "n < 10 \<Longrightarrow> natString n = [48 + n]"
  by (subst natString.simps) simp

lemma natString_big [simp]:
  "10 \<le> n \<Longrightarrow> natString n = natString (n div 10) @ [48 + n mod 10]"
  by (subst natString.simps) simp

lemmas format_eval = formatNumber_def precisionDigits_def roundHalfUp_def pow10_def
  positiveString_def candidates_def closer_def layout_def

lemma digitChars_numeral [simp]:
  "digitChars (numeral k) s = digitChars (pred_numeral k) (s div 10) @ [48 + s mod 10]"
  by (simp only: numeral_eq_Suc [of k] digitChars.simps)

lemma shortest_numeral [simp]:
  "shortest x (numeral f) k =
     (case candidates x k of
        [] \<Rightarrow> shortest x (pred_numeral f) (Suc k)
      | [c] \<Rightarrow> (k, c)
      | c1 # c2 # cs \<Rightarrow> (k, closer x k c1 c2))"
  by (simp only: numeral_eq_Suc [of f] shortest.simps)



lemma digitChars_length [simp]: "length (digitChars k s) = k"
  by (induction k arbitrary: s) simp_all







lemma pow10_powi: "pow10 e = 10 powi e"
  by (simp add: pow10_def power_int_def power_inverse inverse_eq_divide power_divide)

lemma pow10_pos [simp]: "0 < pow10 e"
  by (simp add: pow10_powi)


lemma pow10_nat [simp]: "pow10 (int n) = 10 ^ n"
  by (simp add: pow10_powi)














section \<open>Factorial\<close>

lemma factorial_loop_step:
  "i \<le> n \<Longrightarrow> factorial_loop i n r = factorial_loop (i + 1) n (fmul r (Fin (real i)))"
  by (subst factorial_loop.simps) simp

lemma factorial_loop_stop: "n < i \<Longrightarrow> factorial_loop i n r = r"
  by (subst factorial_loop.simps) simp

lemma tolerance_value:
  "round64 (1 / 10 ^ 12) = Fin (4951760157141521 / 4951760157141521099596496896)"
  by (simp add: round64_eval)

lemma factorial_of_nat:
  "factorial (Fin (real k)) = (if 170 < k then PInf else factorial_loop 2 k (Fin 1))"
proof -
  have r: "Math_round (Fin (real k)) = Fin (real k)" by simp
  have d: "fsub (Fin (real k)) (Fin (real k)) = Fin 0"
    by (simp add: fsub_def fadd_def round64_def)
  show ?thesis
    unfolding factorial_def r d tolerance_value
    by (simp add: fgt_def Let_def)
qed

lemma fact_step_list:
  "k \<in> set [2..<23] \<Longrightarrow> fmul (Fin (real (fact (k - 1)))) (Fin (real k)) = Fin (real (fact k))"
  by (simp add: upt_rec) (elim disjE; simp add: fmul_def isZero_def round64_eval fact_numeral)

lemma fact_step:
  assumes "2 \<le> k" and "k \<le> 22"
  shows "fmul (Fin (real (fact (k - 1)))) (Fin (real k)) = Fin (real (fact k))"
proof -
  from assms have "k \<in> {2..<23}" by simp
  then have "k \<in> set [2..<23]" by (simp only: set_upt)
  then show ?thesis by (rule fact_step_list)
qed


lemma factorial_loop_exact:
  "2 \<le> i \<Longrightarrow> i \<le> n + 1 \<Longrightarrow> n \<le> 22 \<Longrightarrow>
     factorial_loop i n (Fin (real (fact (i - 1)))) = Fin (real (fact n))"
proof (induction "n + 1 - i" arbitrary: i)
  case 0
  then have "i = n + 1" by simp
  then show ?case by (simp add: factorial_loop_stop)
next
  case (Suc d)
  then have le: "i \<le> n" and range: "2 \<le> i" "i \<le> 22" by auto
  from Suc have "d = n + 1 - (i + 1)" by simp
  from Suc.hyps(1) [OF this] Suc.prems le
  have "factorial_loop (i + 1) n (Fin (real (fact i))) = Fin (real (fact n))" by simp
  with le fact_step [OF range] show ?case by (simp add: factorial_loop_step)
qed

lemma factorial_exact: "k \<le> 22 \<Longrightarrow> factorial (Fin (real k)) = Fin (real (fact k))"
proof (cases "2 \<le> k")
  case True
  assume "k \<le> 22"
  with True factorial_loop_exact [of 2 k] show ?thesis by (simp add: factorial_of_nat)
next
  case False
  then have "k = 0 \<or> k = 1" by auto
  then show ?thesis by (auto simp: factorial_of_nat factorial_loop_stop)
qed

lemma factorial_negative: "x < 0 \<Longrightarrow> factorial (Fin x) = NaN"
  by (simp add: factorial_def)

lemma factorial_not_finite: "\<not> isFinite n \<Longrightarrow> factorial n = NaN"
  by (simp add: factorial_def)

lemma factorial_three_and_a_half: "factorial (Fin (7 / 2)) = NaN"
  by (simp add: factorial_def arith_eval round64_eval)

lemma factorial_5: "factorial (Fin 5) = Fin 120"
  using factorial_exact [of 5] by (simp add: fact_numeral)

lemma factorial_within_tolerance: "factorial (round64 (3 + 1 / 10 ^ 13)) = Fin 6"
proof -
  have v: "round64 (3 + 1 / 10 ^ 13) = Fin (6755399441055969 / 2251799813685248)"
    by (simp add: round64_eval)
  have l: "factorial_loop 2 3 (Fin 1) = Fin 6"
    by (simp add: factorial_loop_step factorial_loop_stop fmul_def isZero_def round64_eval)
  show ?thesis
    unfolding v by (simp add: factorial_def arith_eval round64_eval l)
qed

lemma factorial_outside_tolerance: "factorial (round64 (3 + 1 / 10 ^ 11)) = NaN"
  by (simp add: factorial_def arith_eval round64_eval)

lemma factorial_22: "factorial (Fin 22) = Fin 1124000727777607680000"
  using factorial_exact [of 22] by (simp add: fact_numeral)

lemma factorial_loop_split:
  "i \<le> m + 1 \<Longrightarrow> m \<le> n \<Longrightarrow>
     factorial_loop i n r = factorial_loop (m + 1) n (factorial_loop i m r)"
proof (induction "m + 1 - i" arbitrary: i r)
  case 0
  then have "i = m + 1" by simp
  then show ?case by (simp add: factorial_loop_stop)
next
  case (Suc d)
  then have le: "i \<le> m" "i \<le> n" by auto
  from Suc have "d = m + 1 - (i + 1)" by simp
  from Suc.hyps(1) [OF this, of "fmul r (Fin (real i))"] Suc.prems le
  show ?case by (simp add: factorial_loop_step)
qed

lemma factorial_23: "factorial (Fin 23) = Fin 25852016738884978212864"
proof -
  have a: "factorial_loop 2 22 (Fin 1) = Fin 1124000727777607680000"
    using factorial_22 factorial_of_nat [of 22] by simp
  have b: "factorial_loop 2 23 (Fin 1) = factorial_loop 23 23 (factorial_loop 2 22 (Fin 1))"
    using factorial_loop_split [of 2 22 23 "Fin 1"] by simp
  have c: "fmul (Fin 1124000727777607680000) (Fin 23) = Fin 25852016738884978212864"
    by (simp add: fmul_def isZero_def round64_eval)
  have d: "factorial_loop 23 23 (Fin 1124000727777607680000)
             = fmul (Fin 1124000727777607680000) (Fin 23)"
    by (simp add: factorial_loop_step factorial_loop_stop)
  have "factorial (Fin (real 23)) = factorial_loop 2 23 (Fin 1)"
    by (simp only: factorial_of_nat) simp
  then have "factorial (Fin 23) = factorial_loop 2 23 (Fin 1)" by simp
  with a b c d show ?thesis by simp
qed

lemma tolerance_pass:
  assumes "\<bar>d\<bar> \<le> 1 / 10 ^ 12"
  shows "\<not> fgt (Math_abs (round64 d)) (round64 (1 / 10 ^ 12))"
proof (cases "d = 0")
  case True
  have "round64 0 = Fin 0" by (simp add: round64_def)
  then show ?thesis unfolding True tolerance_value by (simp add: fgt_def)
next
  case False
  then have pos: "0 < \<bar>d\<bar>" by simp
  have "isFinite (round64 (1 / 10 ^ 12))" unfolding tolerance_value by simp
  from round64_mono_pos [OF pos assms this]
  have "isFinite (round64 \<bar>d\<bar>)" "val (round64 \<bar>d\<bar>) \<le> val (round64 (1 / 10 ^ 12))" by simp_all
  then show ?thesis
    unfolding Math_abs_round64 tolerance_value by (cases "round64 \<bar>d\<bar>") (simp_all add: fgt_def)
qed

lemma tolerance_fail:
  assumes "1 / 10 ^ 12 + 1 / 10 ^ 24 \<le> \<bar>d\<bar>"
  shows "fgt (Math_abs (round64 d)) (round64 (1 / 10 ^ 12))"
proof -
  have t: "round64 (1 / 10 ^ 12 + 1 / 10 ^ 24)
      = Fin (4951760157146473 / 4951760157141521099596496896)"
    by (simp add: round64_eval)
  have pos: "0 < \<bar>d\<bar>" "(0::real) < 1 / 10 ^ 12 + 1 / 10 ^ 24"
    using assms by simp_all
  from round64_pos_cases [OF pos(1)]
  show ?thesis
  proof
    assume "pow2 1024 \<le> real_of_int (roundHalfEven (\<bar>d\<bar> / pow2 (max (ilog 2 \<bar>d\<bar>) (- 1022) - 52)))
        * pow2 (max (ilog 2 \<bar>d\<bar>) (- 1022) - 52) \<and> round64 \<bar>d\<bar> = PInf"
    then show ?thesis unfolding Math_abs_round64 tolerance_value by (simp add: fgt_def)
  next
    assume "real_of_int (roundHalfEven (\<bar>d\<bar> / pow2 (max (ilog 2 \<bar>d\<bar>) (- 1022) - 52)))
        * pow2 (max (ilog 2 \<bar>d\<bar>) (- 1022) - 52) < pow2 1024 \<and> round64 \<bar>d\<bar> =
        Fin (real_of_int (roundHalfEven (\<bar>d\<bar> / pow2 (max (ilog 2 \<bar>d\<bar>) (- 1022) - 52)))
        * pow2 (max (ilog 2 \<bar>d\<bar>) (- 1022) - 52))"
    then obtain v where v: "round64 \<bar>d\<bar> = Fin v" by blast
    then have "isFinite (round64 \<bar>d\<bar>)" by simp
    from round64_mono_pos [OF pos(2) assms this]
    have "val (round64 (1 / 10 ^ 12 + 1 / 10 ^ 24)) \<le> val (round64 \<bar>d\<bar>)" by blast
    then have "4951760157146473 / 4951760157141521099596496896 \<le> v" unfolding t v by simp
    then show ?thesis unfolding Math_abs_round64 tolerance_value v by (simp add: fgt_def)
  qed
qed

lemma Math_round_near:
  assumes "0 \<le> x" "\<bar>x - real k\<bar> \<le> 1 / 10 ^ 12"
  shows "Math_round (Fin x) = Fin (real k)"
proof (cases "x = of_int \<lfloor>x\<rfloor>")
  case True
  then obtain i :: int where i: "x = of_int i" ..
  with assms have "\<bar>real_of_int (i - int k)\<bar> < 1" by simp
  then have "\<bar>i - int k\<bar> < 1" by linarith
  then have "i = int k" by simp
  with i True show ?thesis by simp
next
  case False
  have "(1::real) / 10 ^ 12 \<le> 1 / 4" by simp
  with assms(2) have "\<bar>x - real k\<bar> \<le> 1 / 4" by linarith
  then have "real k \<le> x + 1 / 2" "x + 1 / 2 < real k + 1" by linarith+
  then have "\<lfloor>x + 1 / 2\<rfloor> = int k" by (intro floor_unique) simp_all
  with False assms(1) show ?thesis by simp
qed

lemma factorial_near:
  assumes "0 \<le> x" "\<bar>x - real k\<bar> \<le> 1 / 10 ^ 12"
  shows "factorial (Fin x) = (if 170 < k then PInf else factorial_loop 2 k (Fin 1))"
proof -
  note r = Math_round_near [OF assms]
  have t: "\<not> fgt (Math_abs (fsub (Fin x) (Fin (real k)))) (round64 (1 / 10 ^ 12))"
    unfolding fsub_Fin by (rule tolerance_pass [OF assms(2)])
  from assms(1) have n: "\<not> flt (Fin x) (Fin 0)" by simp
  show ?thesis
    unfolding factorial_def r using t n by (simp add: Let_def fgt_def)
qed

lemma factorial_far:
  assumes "1 / 10 ^ 12 + 1 / 10 ^ 24 \<le> \<bar>x - of_int \<lfloor>x + 1 / 2\<rfloor>\<bar>"
  shows "factorial (Fin x) = NaN"
proof (cases "x < 0")
  case True
  then show ?thesis by (simp add: factorial_def)
next
  case False
  have "x \<noteq> of_int \<lfloor>x\<rfloor>"
  proof
    assume i: "x = of_int \<lfloor>x\<rfloor>"
    have "\<lfloor>x + 1 / 2\<rfloor> = \<lfloor>x\<rfloor>" by (intro floor_unique) (use i in linarith)+
    with i have "x - of_int \<lfloor>x + 1 / 2\<rfloor> = 0" by simp
    with assms show False by simp
  qed
  with False have r: "Math_round (Fin x) = Fin (of_int \<lfloor>x + 1 / 2\<rfloor>)" by simp
  have "fgt (Math_abs (fsub (Fin x) (Fin (of_int \<lfloor>x + 1 / 2\<rfloor>)))) (round64 (1 / 10 ^ 12))"
    unfolding fsub_Fin by (rule tolerance_fail [OF assms])
  then show ?thesis unfolding factorial_def r by simp
qed

lemma factorial_NZero: "factorial NZero = Fin 1"
  by (simp add: factorial_def arith_eval round64_eval factorial_loop_stop fgt_def)

text \<open>
  C5, as the code has it. For a non-negative operand within \<open>1e-12\<close> of an integer
  \<open>k\<close>, \<open>factorial\<close> rounds the operand to \<open>k\<close> and returns, for \<open>k \<le> 170\<close>,
  the product \<open>1 * 2 * ... * k\<close> computed by the loop in binary64 arithmetic: up to
  \<open>k = 22\<close> this is the exact integer factorial (\<open>120\<close> for \<open>5\<close>), beyond it the
  factorial is no longer representable and the product is rounded. For \<open>k > 170\<close> it
  returns positive infinity. It returns NaN for every operand that is negative, not
  finite, or farther than \<open>1e-12 + 1e-24\<close> from the nearest integer (\<open>3.5\<close> gives NaN,
  which is formatted as \<open>Error\<close>).
\<close>

theorem factorial_function:
  "(0 \<le> x \<and> \<bar>x - real k\<bar> \<le> 1 / 10 ^ 12 \<and> k \<le> 22
      \<longrightarrow> factorial (Fin x) = Fin (real (fact k)))
   \<and> (0 \<le> x \<and> \<bar>x - real k\<bar> \<le> 1 / 10 ^ 12 \<and> k \<le> 170
      \<longrightarrow> factorial (Fin x) = factorial_loop 2 k (Fin 1))
   \<and> (0 \<le> x \<and> \<bar>x - real k\<bar> \<le> 1 / 10 ^ 12 \<and> 170 < k
      \<longrightarrow> factorial (Fin x) = PInf)
   \<and> (1 / 10 ^ 12 + 1 / 10 ^ 24 \<le> \<bar>x - of_int \<lfloor>x + 1 / 2\<rfloor>\<bar>
      \<longrightarrow> factorial (Fin x) = NaN)
   \<and> (x < 0 \<longrightarrow> factorial (Fin x) = NaN)
   \<and> (\<not> isFinite n \<longrightarrow> factorial n = NaN)
   \<and> factorial NZero = Fin 1
   \<and> factorial (Fin 5) = Fin 120
   \<and> factorial (Fin (7 / 2)) = NaN
   \<and> formatNumber (factorial (Fin (7 / 2))) = js ''Error''
   \<and> factorial (round64 (3 + 1 / 10 ^ 13)) = Fin 6
   \<and> factorial (round64 (3 + 1 / 10 ^ 11)) = NaN"
proof -
  have a: "0 \<le> x \<and> \<bar>x - real k\<bar> \<le> 1 / 10 ^ 12 \<and> k \<le> 22
      \<longrightarrow> factorial (Fin x) = Fin (real (fact k))"
  proof (intro impI, elim conjE)
    assume h: "0 \<le> x" "\<bar>x - real k\<bar> \<le> 1 / 10 ^ 12" "k \<le> 22"
    from factorial_near [OF h(1,2)] h(3)
    have "factorial (Fin x) = factorial (Fin (real k))" by (simp add: factorial_of_nat)
    with factorial_exact [OF h(3)] show "factorial (Fin x) = Fin (real (fact k))" by simp
  qed
  have b: "0 \<le> x \<and> \<bar>x - real k\<bar> \<le> 1 / 10 ^ 12 \<and> k \<le> 170
      \<longrightarrow> factorial (Fin x) = factorial_loop 2 k (Fin 1)"
    "0 \<le> x \<and> \<bar>x - real k\<bar> \<le> 1 / 10 ^ 12 \<and> 170 < k
      \<longrightarrow> factorial (Fin x) = PInf"
    using factorial_near [of x k] by simp_all
  have c: "1 / 10 ^ 12 + 1 / 10 ^ 24 \<le> \<bar>x - of_int \<lfloor>x + 1 / 2\<rfloor>\<bar>
      \<longrightarrow> factorial (Fin x) = NaN"
    using factorial_far [of x] by blast
  have d: "x < 0 \<longrightarrow> factorial (Fin x) = NaN" "\<not> isFinite n \<longrightarrow> factorial n = NaN"
    using factorial_negative [of x] factorial_not_finite [of n] by blast+
  have e: "formatNumber (factorial (Fin (7 / 2))) = js ''Error''"
    by (simp add: factorial_three_and_a_half formatNumber_def)
  from a b c d factorial_NZero factorial_5 factorial_three_and_a_half e
    factorial_within_tolerance factorial_outside_tolerance
  show ?thesis by (intro conjI)
qed

theorem factorial_function_witness:
  "(0::real) \<le> 3 + 1 / 10 ^ 13 \<and> \<bar>3 + 1 / 10 ^ 13 - real (3::nat)\<bar> \<le> 1 / 10 ^ 12
   \<and> (3::nat) \<le> 22 \<and> (3::nat) \<le> 170
   \<and> factorial (Fin (3 + 1 / 10 ^ 13)) = Fin (real (fact (3::nat)))
   \<and> factorial (Fin (3 + 1 / 10 ^ 13)) = factorial_loop 2 3 (Fin 1)
   \<and> (0::real) \<le> 171 + 1 / 10 ^ 13 \<and> \<bar>171 + 1 / 10 ^ 13 - real (171::nat)\<bar> \<le> 1 / 10 ^ 12
   \<and> (170::nat) < 171
   \<and> factorial (Fin (171 + 1 / 10 ^ 13)) = PInf
   \<and> 1 / 10 ^ 12 + 1 / 10 ^ 24 \<le> \<bar>7 / 2 - real_of_int \<lfloor>7 / 2 + 1 / 2 :: real\<rfloor>\<bar>
   \<and> (- 1::real) < 0 \<and> factorial (Fin (- 1)) = NaN
   \<and> \<not> isFinite PInf \<and> factorial PInf = NaN"
proof -
  have h1: "(0::real) \<le> 3 + 1 / 10 ^ 13" "\<bar>3 + 1 / 10 ^ 13 - real (3::nat)\<bar> \<le> 1 / 10 ^ 12"
    "(3::nat) \<le> 22" "(3::nat) \<le> 170"
    by simp_all
  have h2: "(0::real) \<le> 171 + 1 / 10 ^ 13"
    "\<bar>171 + 1 / 10 ^ 13 - real (171::nat)\<bar> \<le> 1 / 10 ^ 12" "(170::nat) < 171"
    by simp_all
  have h3: "1 / 10 ^ 12 + 1 / 10 ^ 24 \<le> \<bar>7 / 2 - real_of_int \<lfloor>7 / 2 + 1 / 2 :: real\<rfloor>\<bar>"
    by simp
  have h4: "(- 1::real) < 0" "\<not> isFinite PInf" by simp_all
  note t1 = factorial_function [where x = "3 + 1 / 10 ^ 13" and k = 3 and n = PInf]
  note t2 = factorial_function [where x = "171 + 1 / 10 ^ 13" and k = 171 and n = PInf]
  note t3 = factorial_function [where x = "- 1" and k = 0 and n = PInf]
  from t1 h1 have a: "factorial (Fin (3 + 1 / 10 ^ 13)) = Fin (real (fact (3::nat)))"
    "factorial (Fin (3 + 1 / 10 ^ 13)) = factorial_loop 2 3 (Fin 1)" by blast+
  from t2 h2 have b: "factorial (Fin (171 + 1 / 10 ^ 13)) = PInf" by blast
  from t3 h4 have c: "factorial (Fin (- 1)) = NaN" "factorial PInf = NaN" by blast+
  from h1 h2 h3 h4 a b c show ?thesis by (intro conjI)
qed

theorem factorial_function_counterexample:
  "factorial (Fin 23) = Fin 25852016738884978212864
   \<and> fact 23 = (25852016738884976640000::nat)
   \<and> factorial (Fin (real (23::nat))) \<noteq> Fin (real (fact (23::nat)))"
proof -
  have f: "fact 23 = (25852016738884976640000::nat)" by (simp add: fact_numeral)
  have r: "real (25852016738884976640000::nat) \<noteq> 25852016738884978212864" by simp
  have e: "factorial (Fin (real (23::nat))) = Fin 25852016738884978212864"
    using factorial_23 by simp
  from f r e factorial_23 show ?thesis by simp
qed

section \<open>Domain errors\<close>

lemma tokenize_sqrt_neg1:
  "tokenize (js ''sqrt(-1)'')
     = Inr [Fn Sqrt, Paren LParen, Op UMinus, Num (Fin 1), Paren RParen]"
  by (simp add: tokenize_eval round64_eval)

lemma tokenize_asin_2:
  "tokenize (js ''asin(2)'') = Inr [Fn Asin, Paren LParen, Num (Fin 2), Paren RParen]"
  by (simp add: tokenize_eval round64_eval)

lemma tokenize_1div0: "tokenize (js ''1/0'') = Inr [Num (Fin 1), Op Divide, Num (Fin 0)]"
  by (simp add: tokenize_eval round64_eval)

lemma tokenize_0pow0: "tokenize (js ''0^0'') = Inr [Num (Fin 0), Op Power, Num (Fin 0)]"
  by (simp add: tokenize_eval round64_eval)

lemma trigOut_NaN: "trigOut m NaN = NaN"
  by (simp add: trigOut_def radToDeg_def arith_eval)

lemma format_1: "formatNumber (Fin 1) = js ''1''"
  by (simp add: format_eval round64_eval js_def)

lemma tokenize_5fact: "tokenize (js ''5!'') = Inr [Num (Fin 5), Op Times, Fn Fact]"
  by (simp add: tokenize_eval round64_eval)

lemma evaluate_5fact: "evaluateExpression M s (js ''5!'') = Inl BadExpression"
  by (simp add: evaluate_eval tokenize_5fact factorial_5)

lemma tokenize_3_5_fact:
  "tokenize (js ''3.5!'') = Inr [Num (Fin (7 / 2)), Op Times, Fn Fact]"
  by (simp add: tokenize_eval round64_eval)

text \<open>
  C6. Domain-invalid mathematics raises no error in the evaluator where the input reaches
  it: \<open>sqrt(-1)\<close> and \<open>asin(2)\<close> evaluate to NaN, \<open>1/0\<close> to \<open>Infinity\<close>, and
  \<open>formatNumber\<close> turns NaN and the infinities into \<open>Error\<close>; \<open>0^0\<close> evaluates to
  exactly 1 and is written \<open>1\<close>. The non-integral factorial is different. The function
  \<open>factorial\<close> returns NaN for \<open>3.5\<close>, but the input \<open>3.5!\<close> never reaches it with a
  well-formed postfix sequence: \<open>insertImplicitMultiplication\<close> puts \<open>*\<close> between the
  number and the postfix \<open>!\<close>, the postfix form is \<open>3.5 ! *\<close>, and \<open>evalRPN\<close> throws
  "Bad expression". The same happens for \<open>5!\<close>.
\<close>

theorem non_integral_factorial_raises:
  "tokenize (js ''3.5!'') = Inr [Num (Fin (7 / 2)), Op Times, Fn Fact]
   \<and> toRPN2 [Num (Fin (7 / 2)), Op Times, Fn Fact]
       = Inr [Num (Fin (7 / 2)), Fn Fact, Op Times]
   \<and> evaluateExpression M s (js ''3.5!'') = Inl BadExpression
   \<and> evaluateExpression M s (js ''5!'') = Inl BadExpression
   \<and> factorial (Fin (7 / 2)) = NaN
   \<and> evaluateExpression M s (js ''sqrt(-1)'') = Inr NaN
   \<and> evaluateExpression M s (js ''asin(2)'') = Inr NaN
   \<and> evaluateExpression M s (js ''1/0'') = Inr PInf
   \<and> formatNumber NaN = js ''Error''
   \<and> formatNumber PInf = js ''Error''
   \<and> formatNumber NInf = js ''Error''
   \<and> evaluateExpression M s (js ''0^0'') = Inr (Fin 1)
   \<and> formatNumber (Fin 1) = js ''1''"
proof -
  have p: "toRPN2 [Num (Fin (7 / 2)), Op Times, Fn Fact]
       = Inr [Num (Fin (7 / 2)), Fn Fact, Op Times]"
    by (simp add: toRPN2_def)
  have g: "evaluateExpression M s (js ''3.5!'') = Inl BadExpression"
    by (simp add: evaluate_eval tokenize_3_5_fact factorial_three_and_a_half)
  have a: "evaluateExpression M s (js ''sqrt(-1)'') = Inr NaN"
    by (simp add: evaluate_eval tokenize_sqrt_neg1)
  have b: "evaluateExpression M s (js ''asin(2)'') = Inr NaN"
    by (simp add: evaluate_eval tokenize_asin_2 trigOut_NaN)
  have c: "evaluateExpression M s (js ''1/0'') = Inr PInf"
    by (simp add: evaluate_eval tokenize_1div0 arith_eval)
  have e: "formatNumber NaN = js ''Error''" "formatNumber PInf = js ''Error''"
    "formatNumber NInf = js ''Error''"
    by (simp_all add: formatNumber_def)
  have f: "evaluateExpression M s (js ''0^0'') = Inr (Fin 1)"
    by (simp add: evaluate_eval tokenize_0pow0 Math_pow_def isZero_def)
  from tokenize_3_5_fact p g evaluate_5fact [of M s] factorial_three_and_a_half a b c e f
    format_1
  show ?thesis by (intro conjI)
qed

end
